theory Spec2Isabelle
  imports Complex_Main
begin

section \<open>Feature tables and errors\<close>

text \<open>
  A pandas data frame of numeric features: a row index of a fixed length and an ordered
  list of named columns. Python floats are modelled as real numbers, so NaN and the
  infinities have no counterpart here.
\<close>

type_synonym column = "string \<times> real list"

record table =
  index_len :: nat
  columns :: "column list"

text \<open>
  The exceptions that reach the caller. \<open>DimensionMismatch\<close>, \<open>InvalidFoldCount\<close>,
  \<open>EmptyInput\<close> and \<open>EmptySequence\<close> are all \<open>ValueError\<close> in Python (raised by the
  numeric libraries); \<open>IndexError\<close> and \<open>KeyError\<close> are the Python exceptions of the same
  name. \<open>NonFiniteScore\<close> stands for a score of \<open>-np.inf\<close>, which the real numbers do
  not have.
\<close>

datatype error =
    DimensionMismatch
  | InvalidFoldCount
  | EmptyInput
  | EmptySequence
  | NonFiniteScore
  | IndexError
  | KeyError

definition keys :: "table \<Rightarrow> string list" where
  "keys t = map fst (columns t)"

definition shape1 :: "table \<Rightarrow> nat" where
  "shape1 t = length (columns t)"

text \<open>
  The invariant of a feature table: no column name occurs twice, and every column has the
  length of the index. \<open>to_rows\<close> gives the table as the list of its rows.
\<close>

definition well_formed :: "table \<Rightarrow> bool" where
  "well_formed t \<longleftrightarrow>
     distinct (keys t) \<and> list_all (\<lambda>c. length (snd c) = index_len t) (columns t)"

definition to_rows :: "table \<Rightarrow> real list list" where
  "to_rows t = map (\<lambda>i. map (\<lambda>c. snd c ! i) (columns t)) [0..<index_len t]"

definition getitem :: "(string \<times> 'v) list \<Rightarrow> string \<Rightarrow> error + 'v" where
  "getitem d k = (case map_of d k of None \<Rightarrow> Inl KeyError | Some v \<Rightarrow> Inr v)"

section \<open>Scoring engine\<close>

text \<open>
  A regression estimator: fitted on training rows and training targets, it predicts one
  value for a row. A score function takes the measured and the predicted values.
\<close>

type_synonym model = "real list list \<Rightarrow> real list \<Rightarrow> real list \<Rightarrow> real"
type_synonym score_function = "real list \<Rightarrow> real list \<Rightarrow> real"

definition mean :: "real list \<Rightarrow> real" where
  "mean xs = sum_list xs / real (length xs)"

definition sq_errors :: "real list \<Rightarrow> real list \<Rightarrow> real list" where
  "sq_errors meas pred = map (\<lambda>(m, p). (m - p)\<^sup>2) (zip meas pred)"

definition mean_squared_error :: score_function where
  "mean_squared_error meas pred = mean (sq_errors meas pred)"

text \<open>The scorer of \<open>score_model\<close>: \<open>lambda meas, pred: -np.sqrt(mean_squared_error(meas, pred))\<close>.\<close>

definition neg_rmse :: score_function where
  "neg_rmse meas pred = - sqrt (mean_squared_error meas pred)"

subsection \<open>The k-fold partition\<close>

text \<open>
  An integer \<open>cv\<close> selects the unshuffled k-fold splitter: contiguous folds in row order,
  the first \<open>n mod k\<close> of them one row longer. A fold is given by the start and the size
  of its held-out block.
\<close>

definition fold_sizes :: "nat \<Rightarrow> nat \<Rightarrow> nat list" where
  "fold_sizes n k = map (\<lambda>i. n div k + (if i < n mod k then 1 else 0)) [0..<k]"

fun fold_bounds :: "nat \<Rightarrow> nat list \<Rightarrow> (nat \<times> nat) list" where
  "fold_bounds start [] = []"
| "fold_bounds start (s # ss) = (start, s) # fold_bounds (start + s) ss"

definition kfold :: "nat \<Rightarrow> nat \<Rightarrow> (nat \<times> nat) list" where
  "kfold n k = fold_bounds 0 (fold_sizes n k)"

definition test_part :: "nat \<times> nat \<Rightarrow> 'a list \<Rightarrow> 'a list" where
  "test_part b xs = take (snd b) (drop (fst b) xs)"

definition train_part :: "nat \<times> nat \<Rightarrow> 'a list \<Rightarrow> 'a list" where
  "train_part b xs = take (fst b) xs @ drop (fst b + snd b) xs"

definition fold_predict :: "model \<Rightarrow> real list list \<Rightarrow> real list \<Rightarrow> nat \<times> nat \<Rightarrow> real list" where
  "fold_predict m X y b = map (m (train_part b X) (train_part b y)) (test_part b X)"

definition fold_score ::
  "model \<Rightarrow> score_function \<Rightarrow> real list list \<Rightarrow> real list \<Rightarrow> nat \<times> nat \<Rightarrow> real" where
  "fold_score m f X y b = f (test_part b y) (fold_predict m X y b)"

subsection \<open>Cross-validation\<close>

text \<open>
  Modelled from the spec: the cross-validation routines \<open>cross_validate\<close> and
  \<open>cross_val_predict\<close> that \<open>score_model\<close> calls belong to the numeric library and are
  not in the repository. Following section 4.1 of the specification, a call fails with
  \<open>DimensionMismatch\<close> when the feature rows and the target differ in length, fails with
  \<open>InvalidFoldCount\<close> when the fold count is below 2 or above the sample count, and
  otherwise fits the model on the training rows of each fold and applies every scorer to
  the held-out rows of that fold, giving one score per fold under the key
  \<open>test_\<close> followed by the scorer's name. The lengths are compared first.
\<close>

definition check_cv :: "real list list \<Rightarrow> real list \<Rightarrow> int \<Rightarrow> error option" where
  "check_cv X y cv =
     (if length X \<noteq> length y then Some DimensionMismatch
      else if cv < 2 \<or> int (length y) < cv then Some InvalidFoldCount
      else None)"

definition cross_validate ::
  "model \<Rightarrow> real list list \<Rightarrow> real list \<Rightarrow> (string \<times> score_function) list \<Rightarrow> int
     \<Rightarrow> error + (string \<times> real list) list" where
  "cross_validate m X y scoring cv =
     (case check_cv X y cv of
        Some e \<Rightarrow> Inl e
      | None \<Rightarrow>
          Inr (map (\<lambda>(name, f).
                 (''test_'' @ name, map (fold_score m f X y) (kfold (length y) (nat cv))))
               scoring))"

definition cross_val_predict ::
  "model \<Rightarrow> real list list \<Rightarrow> real list \<Rightarrow> int \<Rightarrow> error + real list" where
  "cross_val_predict m X y cv =
     (case check_cv X y cv of
        Some e \<Rightarrow> Inl e
      | None \<Rightarrow> Inr (concat (map (fold_predict m X y) (kfold (length y) (nat cv)))))"

text \<open>The coefficient of determination, with the library's values for a constant target.\<close>

definition r2_score :: score_function where
  "r2_score meas pred =
     (let ss_res = sum_list (sq_errors meas pred);
          ss_tot = sum_list (map (\<lambda>v. (v - mean meas)\<^sup>2) meas)
      in if ss_tot = 0 then (if ss_res = 0 then 1 else 0) else 1 - ss_res / ss_tot)"

subsection \<open>score_model\<close>

text \<open>
  The score dictionary holds one array per scorer and, when predictions are asked for,
  the scalar \<open>R2_stacked\<close>. Logging (\<open>print_scores\<close>) does not change the result and is
  left out.
\<close>

datatype score_value = Array "real list" | Scalar real

fun as_array :: "score_value \<Rightarrow> real list" where
  "as_array (Array xs) = xs"
| "as_array (Scalar x) = [x]"

definition score_model ::
  "table \<Rightarrow> real list \<Rightarrow> model \<Rightarrow> score_function option \<Rightarrow> int option \<Rightarrow> bool
     \<Rightarrow> error + ((string \<times> score_value) list \<times> real list option)" where
  "score_model feat_df y m score_fn cv find_predicted =
     (let cv = (case cv of None \<Rightarrow> int (length y) | Some k \<Rightarrow> k);
          scoring = (case score_fn of
                       Some f \<Rightarrow> [(''-RMSE'', neg_rmse), (''user'', f)]
                     | None \<Rightarrow> [(''-RMSE'', neg_rmse)])
      in case cross_validate m (to_rows feat_df) y scoring cv of
           Inl e \<Rightarrow> Inl e
         | Inr folds \<Rightarrow>
             (let scores = map (\<lambda>(k, v). (k, Array v)) folds
              in if find_predicted then
                   (case cross_val_predict m (to_rows feat_df) y cv of
                      Inl e \<Rightarrow> Inl e
                    | Inr predicted \<Rightarrow>
                        Inr (scores @ [(''R2_stacked'', Scalar (r2_score y predicted))],
                             Some predicted))
                 else Inr (scores, None)))"

text \<open>
  The aggregate of the per-fold scores, as \<open>forward_selection\<close> and \<open>ranking\<close> both
  compute it from the dictionary: \<open>-np.sqrt((scores['test_-RMSE'] ** 2).mean())\<close> without
  a user score function, \<open>scores['test_user'].mean()\<close> with one.
\<close>

definition aggregate :: "score_function option \<Rightarrow> (string \<times> score_value) list \<Rightarrow> error + real" where
  "aggregate score_fn scores =
     (case score_fn of
        None \<Rightarrow>
          (case getitem scores ''test_-RMSE'' of
             Inl e \<Rightarrow> Inl e
           | Inr v \<Rightarrow> Inr (- sqrt (mean (map (\<lambda>s. s\<^sup>2) (as_array v)))))
      | Some f \<Rightarrow>
          (case getitem scores ''test_user'' of
             Inl e \<Rightarrow> Inl e
           | Inr v \<Rightarrow> Inr (mean (as_array v))))"

definition cv_score ::
  "table \<Rightarrow> real list \<Rightarrow> model \<Rightarrow> score_function option \<Rightarrow> int option \<Rightarrow> error + real" where
  "cv_score feat_df y m score_fn cv =
     (case score_model feat_df y m score_fn cv False of
        Inl e \<Rightarrow> Inl e
      | Inr (scores, predicted) \<Rightarrow> aggregate score_fn scores)"

section \<open>Forward selection engine\<close>

text \<open>
  The running best of one pass over the available features. \<open>best_score\<close> starts at
  \<open>-np.inf\<close>, written \<open>None\<close>: every real score is greater.
\<close>

record best =
  best_score :: "real option"
  best_feat :: "real list"
  best_key :: string

fun exceeds :: "real \<Rightarrow> real option \<Rightarrow> bool" where
  "exceeds s None = True"
| "exceeds s (Some b) = (b < s)"

text \<open>\<open>pd.concat((selected_feats_df, feat_vec), axis=1)\<close>: the selected columns and the candidate.\<close>

definition concat_col :: "table \<Rightarrow> column \<Rightarrow> table" where
  "concat_col t c = t\<lparr>columns := columns t @ [c]\<rparr>"

text \<open>The \<open>for\<close> loop over \<open>available_feats_df.iteritems()\<close>, in column order.\<close>

fun scan_candidates ::
  "real list \<Rightarrow> model \<Rightarrow> score_function option \<Rightarrow> int option \<Rightarrow> table
     \<Rightarrow> column list \<Rightarrow> best \<Rightarrow> error + best" where
  "scan_candidates y m score_fn cv selected [] b = Inr b"
| "scan_candidates y m score_fn cv selected (c # cs) b =
     (case cv_score (concat_col selected c) y m score_fn cv of
        Inl e \<Rightarrow> Inl e
      | Inr score \<Rightarrow>
          scan_candidates y m score_fn cv selected cs
            (if exceeds score (best_score b)
             then \<lparr>best_score = Some score, best_feat = snd c, best_key = fst c\<rparr>
             else b))"

text \<open>
  \<open>selected_feats_df[best_key] = best_feat\<close>: a column of the length of the index, put in
  place of the column of that name when there is one and appended otherwise.
\<close>

definition setitem :: "table \<Rightarrow> string \<Rightarrow> real list \<Rightarrow> error + table" where
  "setitem t k v =
     (if length v \<noteq> index_len t then Inl DimensionMismatch
      else if k \<in> set (keys t)
        then Inr (t\<lparr>columns := map (\<lambda>c. if fst c = k then (k, v) else c) (columns t)\<rparr>)
        else Inr (t\<lparr>columns := columns t @ [(k, v)]\<rparr>))"

text \<open>\<open>available_feats_df.pop(best_key)\<close>: the columns of that name leave the table.\<close>

definition pop :: "table \<Rightarrow> string \<Rightarrow> error + table" where
  "pop t k =
     (if k \<in> set (keys t)
      then Inr (t\<lparr>columns := filter (\<lambda>c. fst c \<noteq> k) (columns t)\<rparr>)
      else Inl KeyError)"

text \<open>
  One iteration of the \<open>while\<close> loop. \<open>available_feats_df.columns[0]\<close> raises on a table
  with no column left. A best score still at \<open>-np.inf\<close> cannot be stored among real
  scores; the branch is written out and shown below never to be taken.
\<close>

definition fs_step ::
  "real list \<Rightarrow> model \<Rightarrow> score_function option \<Rightarrow> int option
     \<Rightarrow> table \<times> real list \<times> table \<Rightarrow> error + (table \<times> real list \<times> table)" where
  "fs_step y m score_fn cv st =
     (case st of (selected, selected_scores, available) \<Rightarrow>
        (case columns available of
           [] \<Rightarrow> Inl IndexError
         | c0 # _ \<Rightarrow>
             (case scan_candidates y m score_fn cv selected (columns available)
                     \<lparr>best_score = None, best_feat = [], best_key = fst c0\<rparr> of
                Inl e \<Rightarrow> Inl e
              | Inr b \<Rightarrow>
                  (case setitem selected (best_key b) (best_feat b) of
                     Inl e \<Rightarrow> Inl e
                   | Inr selected' \<Rightarrow>
                       (case best_score b of
                          None \<Rightarrow> Inl NonFiniteScore
                        | Some s \<Rightarrow>
                            (case pop available (best_key b) of
                               Inl e \<Rightarrow> Inl e
                             | Inr available' \<Rightarrow>
                                 Inr (selected', selected_scores @ [s], available')))))))"

lemma pop_shorter: "pop t k = Inr t' \<Longrightarrow> length (columns t') < length (columns t)"
proof -
  assume p: "pop t k = Inr t'"
  then have k: "k \<in> fst ` set (columns t)" and t': "columns t' = filter (\<lambda>c. fst c \<noteq> k) (columns t)"
    by (auto simp: pop_def keys_def split: if_splits)
  from k obtain c where "c \<in> set (columns t)" "\<not> fst c \<noteq> k" by auto
  then show ?thesis unfolding t' by (rule length_filter_less)
qed

lemma fs_step_shorter:
  "fs_step y m score_fn cv (sel, sc, av) = Inr (sel', sc', av')
     \<Longrightarrow> length (columns av') < length (columns av)"
  by (auto simp: fs_step_def split: list.splits sum.splits option.splits dest: pop_shorter)

function fs_loop ::
  "real list \<Rightarrow> model \<Rightarrow> score_function option \<Rightarrow> int option \<Rightarrow> int
     \<Rightarrow> table \<times> real list \<times> table \<Rightarrow> error + (table \<times> real list)" where
  "fs_loop y m score_fn cv max_num_feats (selected, selected_scores, available) =
     (if int (shape1 selected) < max_num_feats then
        (case fs_step y m score_fn cv (selected, selected_scores, available) of
           Inl e \<Rightarrow> Inl e
         | Inr st' \<Rightarrow> fs_loop y m score_fn cv max_num_feats st')
      else Inr (selected, selected_scores))"
  by pat_completeness auto
termination
  by (relation "measure (\<lambda>(y, m, score_fn, cv, mx, sel, sc, av). length (columns av))")
     (auto dest: fs_step_shorter)

declare fs_loop.simps [simp del]

text \<open>
  \<open>forward_selection\<close>: 0 stands for all the features. After the loop,
  \<open>np.argmax(selected_scores)\<close> raises on an empty score array.
\<close>

definition forward_selection ::
  "table \<Rightarrow> real list \<Rightarrow> int \<Rightarrow> model \<Rightarrow> score_function option \<Rightarrow> int option
     \<Rightarrow> error + (table \<times> real list)" where
  "forward_selection feat_df y max_num_feats m score_fn cv =
     (let max_num_feats = (if max_num_feats = 0 then int (shape1 feat_df) else max_num_feats);
          selected = \<lparr>index_len = index_len feat_df, columns = []\<rparr>
      in case fs_loop y m score_fn cv max_num_feats (selected, [], feat_df) of
           Inl e \<Rightarrow> Inl e
         | Inr (selected, selected_scores) \<Rightarrow>
             if selected_scores = [] then Inl EmptySequence
             else Inr (selected, selected_scores))"

section \<open>Ranking engine\<close>

text \<open>\<open>pd.DataFrame(feat_vec)\<close>: the table of one column.\<close>

definition single :: "table \<Rightarrow> column \<Rightarrow> table" where
  "single t c = \<lparr>index_len = index_len t, columns = [c]\<rparr>"

fun rank_loop ::
  "table \<Rightarrow> real list \<Rightarrow> model \<Rightarrow> score_function option \<Rightarrow> int option
     \<Rightarrow> column list \<Rightarrow> real list \<Rightarrow> error + real list" where
  "rank_loop t y m score_fn cv [] feat_scores = Inr feat_scores"
| "rank_loop t y m score_fn cv (c # cs) feat_scores =
     (case cv_score (single t c) y m score_fn cv of
        Inl e \<Rightarrow> Inl e
      | Inr score \<Rightarrow> rank_loop t y m score_fn cv cs (feat_scores @ [score]))"

text \<open>After the loop, \<open>feat_scores.max()\<close> raises on an empty array.\<close>

definition ranking ::
  "table \<Rightarrow> real list \<Rightarrow> model \<Rightarrow> score_function option \<Rightarrow> int option \<Rightarrow> error + real list" where
  "ranking feat_df y m score_fn cv =
     (case rank_loop feat_df y m score_fn cv (columns feat_df) [] of
        Inl e \<Rightarrow> Inl e
      | Inr feat_scores \<Rightarrow>
          if feat_scores = [] then Inl EmptySequence else Inr feat_scores)"

section \<open>Clustering-ranking selector\<close>

subsection \<open>Library routines\<close>

text \<open>
  \<open>StandardScaler\<close>: zero mean and unit population variance for each column; a scale of
  zero (a constant column) is replaced by one, so a constant column becomes all zeros.
\<close>

definition variance :: "real list \<Rightarrow> real" where
  "variance xs = mean (map (\<lambda>x. (x - mean xs)\<^sup>2) xs)"

definition standard_scale :: "real list \<Rightarrow> real list" where
  "standard_scale xs =
     (let mu = mean xs; sd = sqrt (variance xs); scale = (if sd = 0 then 1 else sd)
      in map (\<lambda>x. (x - mu) / scale) xs)"

text \<open>\<open>dcor.distances.pairwise_distances\<close>: the Euclidean distance between every two points.\<close>

definition euclidean :: "real list \<Rightarrow> real list \<Rightarrow> real" where
  "euclidean a b = sqrt (sum_list (sq_errors a b))"

definition pairwise_distances :: "real list list \<Rightarrow> real list list" where
  "pairwise_distances pts = map (\<lambda>a. map (euclidean a) pts) pts"

text \<open>\<open>np.median\<close> of the flattened matrix.\<close>

definition median :: "real list \<Rightarrow> real" where
  "median xs =
     (let s = sort xs; n = length xs
      in if even n then (s ! (n div 2 - 1) + s ! (n div 2)) / 2 else s ! (n div 2))"

text \<open>
  \<open>dcor.distance_covariance_sqr\<close> of two samples of real numbers: the mean of the
  entrywise product of their double-centred distance matrices.
\<close>

definition distance_matrix :: "real list \<Rightarrow> real list list" where
  "distance_matrix xs = map (\<lambda>a. map (\<lambda>b. \<bar>a - b\<bar>) xs) xs"

definition double_centered :: "real list list \<Rightarrow> real list list" where
  "double_centered D =
     (let n = length D;
          row_mean = map mean D;
          col_mean = map (\<lambda>j. mean (map (\<lambda>r. r ! j) D)) [0..<n];
          grand = mean (concat D)
      in map (\<lambda>i. map (\<lambda>j. D ! i ! j - row_mean ! i - col_mean ! j + grand) [0..<n]) [0..<n])"

definition distance_covariance_sqr :: "real list \<Rightarrow> real list \<Rightarrow> real" where
  "distance_covariance_sqr x y =
     (let A = double_centered (distance_matrix x);
          B = double_centered (distance_matrix y)
      in mean (concat (map (\<lambda>(ra, rb). map (\<lambda>(a, b). a * b) (zip ra rb)) (zip A B))))"

text \<open>Indexing an array with an array of indices; an index out of range raises.\<close>

definition fancy :: "'a list \<Rightarrow> nat list \<Rightarrow> error + 'a list" where
  "fancy xs idx =
     (if list_all (\<lambda>i. i < length xs) idx then Inr (map (\<lambda>i. xs ! i) idx) else Inl IndexError)"

text \<open>\<open>np.max\<close> raises on an empty array.\<close>

fun amax :: "real list \<Rightarrow> error + real" where
  "amax [] = Inl EmptySequence"
| "amax (x # xs) = Inr (fold max xs x)"

text \<open>\<open>np.unique\<close>: the distinct values in increasing order.\<close>

definition unique :: "int list \<Rightarrow> int list" where
  "unique ls = sort (remdups ls)"

text \<open>The slice \<open>xs[:m]\<close>: everything for \<open>None\<close>, and a negative bound counts from the end.\<close>

definition slice_to :: "int option \<Rightarrow> 'a list \<Rightarrow> 'a list" where
  "slice_to m xs =
     (case m of
        None \<Rightarrow> xs
      | Some k \<Rightarrow> if 0 \<le> k then take (nat k) xs else take (length xs - nat (- k)) xs)"

subsection \<open>fcr\<close>

text \<open>
  Two library routines are parameters of the selector: \<open>argsort\<close>, the indices that sort an
  array in increasing order (the order of equal entries is the library's choice), and
  \<open>ap\<close>, the cluster labels that affinity propagation gives for a similarity matrix and a
  preference.
\<close>

type_synonym argsort = "real list \<Rightarrow> nat list"
type_synonym clustering = "real list list \<Rightarrow> real \<Rightarrow> int list"

definition argsort_ok :: "argsort \<Rightarrow> bool" where
  "argsort_ok f \<longleftrightarrow>
     (\<forall>xs. length (f xs) = length xs \<and> set (f xs) = {0..<length xs}
           \<and> sorted (map (\<lambda>i. xs ! i) (f xs)))"

definition sc_feat :: "table \<Rightarrow> real list list" where
  "sc_feat feat_df = map (\<lambda>c. standard_scale (snd c)) (columns feat_df)"

text \<open>\<open>d = -dcor.distances.pairwise_distances(sc_feat_df.T)\<close>, the matrix given to the clustering.\<close>

definition similarity :: "table \<Rightarrow> real list list" where
  "similarity feat_df = map (map uminus) (pairwise_distances (sc_feat feat_df))"

definition fcr_labels :: "clustering \<Rightarrow> table \<Rightarrow> int list" where
  "fcr_labels ap feat_df =
     (let d = similarity feat_df; pref = median (concat d) in ap d pref)"

text \<open>
  The body of the loop over the labels: the representative of a cluster and its score.
  \<open>dcor.rowwise\<close> pairs the one row of the standardized target with the row of every
  member of the cluster, so \<open>dy\<close> holds one squared distance covariance per member.
\<close>

definition cluster_pick ::
  "argsort \<Rightarrow> real list list \<Rightarrow> real list \<Rightarrow> int list \<Rightarrow> int \<Rightarrow> error + (nat \<times> real)" where
  "cluster_pick argsort sc_feat_df sc_y labels label =
     (let label_idx = filter (\<lambda>i. labels ! i = label) [0..<length labels]
      in case fancy sc_feat_df label_idx of
           Inl e \<Rightarrow> Inl e
         | Inr members \<Rightarrow>
             (let dy = map (\<lambda>x. distance_covariance_sqr x sc_y) members
              in case fancy label_idx (argsort (map uminus dy)) of
                   Inl e \<Rightarrow> Inl e
                 | Inr rank_label_idx \<Rightarrow>
                     (case rank_label_idx of
                        [] \<Rightarrow> Inl IndexError
                      | r # _ \<Rightarrow>
                          (case amax dy of
                             Inl e \<Rightarrow> Inl e
                           | Inr mx \<Rightarrow> Inr (r, mx)))))"

fun cluster_loop ::
  "argsort \<Rightarrow> real list list \<Rightarrow> real list \<Rightarrow> int list \<Rightarrow> int list
     \<Rightarrow> nat list \<times> real list \<Rightarrow> error + (nat list \<times> real list)" where
  "cluster_loop argsort sc_feat_df sc_y labels [] acc = Inr acc"
| "cluster_loop argsort sc_feat_df sc_y labels (label # rest) (selected_feats, cluster_scores) =
     (case cluster_pick argsort sc_feat_df sc_y labels label of
        Inl e \<Rightarrow> Inl e
      | Inr (r, mx) \<Rightarrow>
          cluster_loop argsort sc_feat_df sc_y labels rest
            (selected_feats @ [r], cluster_scores @ [mx]))"

text \<open>\<open>feat_df.iloc[:, idx]\<close>: the columns at the given positions.\<close>

definition iloc :: "table \<Rightarrow> nat list \<Rightarrow> error + table" where
  "iloc t idx =
     (case fancy (columns t) idx of
        Inl e \<Rightarrow> Inl e
      | Inr cs \<Rightarrow> Inr (t\<lparr>columns := cs\<rparr>))"

text \<open>
  \<open>fcr\<close>. The scaler raises on a table without rows or without columns, and the distance
  covariance raises on samples of different lengths.
\<close>

definition fcr ::
  "argsort \<Rightarrow> clustering \<Rightarrow> table \<Rightarrow> real list \<Rightarrow> int option \<Rightarrow> error + (table \<times> real list)" where
  "fcr argsort ap feat_df y max_num_feats =
     (if index_len feat_df = 0 \<or> columns feat_df = [] \<or> y = [] then Inl EmptyInput
      else if length y \<noteq> index_len feat_df then Inl DimensionMismatch
      else
        (let sc_feat_df = sc_feat feat_df;
             sc_y = standard_scale y;
             labels = fcr_labels ap feat_df
         in case cluster_loop argsort sc_feat_df sc_y labels (unique labels) ([], []) of
              Inl e \<Rightarrow> Inl e
            | Inr (selected_feats, cluster_scores) \<Rightarrow>
                (let rank_feat_idx = argsort (map uminus cluster_scores)
                 in case fancy selected_feats rank_feat_idx of
                      Inl e \<Rightarrow> Inl e
                    | Inr selected_feats \<Rightarrow>
                        (case fancy cluster_scores rank_feat_idx of
                           Inl e \<Rightarrow> Inl e
                         | Inr cluster_scores \<Rightarrow>
                             (case iloc feat_df (slice_to max_num_feats selected_feats) of
                                Inl e \<Rightarrow> Inl e
                              | Inr selected_df \<Rightarrow>
                                  Inr (selected_df, slice_to max_num_feats cluster_scores))))))"

section \<open>Reference quantities\<close>

text \<open>The mean squared held-out error of one fold.\<close>

definition fold_mse :: "model \<Rightarrow> real list list \<Rightarrow> real list \<Rightarrow> nat \<times> nat \<Rightarrow> real" where
  "fold_mse m X y b = mean_squared_error (test_part b y) (fold_predict m X y b)"

text \<open>
  The pooled score of the specification: the squared held-out errors of all rows of all
  folds in one list, their mean, and the negated square root of it.
\<close>

definition held_out_sq_errors :: "model \<Rightarrow> real list list \<Rightarrow> real list \<Rightarrow> nat \<Rightarrow> real list" where
  "held_out_sq_errors m X y k =
     concat (map (\<lambda>b. sq_errors (test_part b y) (fold_predict m X y b)) (kfold (length y) k))"

definition pooled_neg_rmse :: "model \<Rightarrow> real list list \<Rightarrow> real list \<Rightarrow> nat \<Rightarrow> real" where
  "pooled_neg_rmse m X y k = - sqrt (mean (held_out_sq_errors m X y k))"

text \<open>A fold count that the cross-validation accepts for \<open>n\<close> samples.\<close>

definition valid_folds :: "int option \<Rightarrow> nat \<Rightarrow> bool" where
  "valid_folds cv n = (case cv of None \<Rightarrow> 2 \<le> n | Some k \<Rightarrow> 2 \<le> k \<and> k \<le> int n)"

definition sorted_desc :: "real list \<Rightarrow> bool" where
  "sorted_desc xs = sorted (rev xs)"

text \<open>
  The trial scores of one pass over the available features, the state that a candidate
  leaves in the running best, and the position of the first maximum of a list of scores.
\<close>

definition trial_scores ::
  "real list \<Rightarrow> model \<Rightarrow> score_function option \<Rightarrow> int option \<Rightarrow> table \<Rightarrow> column list
     \<Rightarrow> (error + real) list" where
  "trial_scores y m score_fn cv selected cs =
     map (\<lambda>c. cv_score (concat_col selected c) y m score_fn cv) cs"

definition candidate :: "column \<Rightarrow> real \<Rightarrow> best" where
  "candidate c s = \<lparr>best_score = Some s, best_feat = snd c, best_key = fst c\<rparr>"

definition first_max :: "real list \<Rightarrow> nat \<Rightarrow> bool" where
  "first_max ss j \<longleftrightarrow> j < length ss \<and> (\<forall>i<j. ss ! i < ss ! j) \<and> (\<forall>i<length ss. ss ! i \<le> ss ! j)"

text \<open>
  The squared distance covariance of feature \<open>j\<close> with the target, both standardized, and
  what makes \<open>r\<close> with the score \<open>s\<close> the representative of its cluster.
\<close>

definition dy_of :: "table \<Rightarrow> real list \<Rightarrow> nat \<Rightarrow> real" where
  "dy_of t y j = distance_covariance_sqr (sc_feat t ! j) (standard_scale y)"

definition representative :: "table \<Rightarrow> real list \<Rightarrow> int list \<Rightarrow> nat \<Rightarrow> real \<Rightarrow> bool" where
  "representative t y labels r s \<longleftrightarrow>
     r < length labels \<and> s = dy_of t y r
     \<and> (\<forall>j<length labels. labels ! j = labels ! r \<longrightarrow> dy_of t y j \<le> s)"

text \<open>
  The distance correlation of two samples, the statistic that the specification names for
  the distance matrix: the root of the squared distance covariance over the root of the
  product of the two squared distance variances, and 0 when that product is 0.
\<close>

definition distance_correlation :: "real list \<Rightarrow> real list \<Rightarrow> real" where
  "distance_correlation x y =
     (let vxy = distance_covariance_sqr x y;
          vx = distance_covariance_sqr x x;
          vy = distance_covariance_sqr y y
      in if vx * vy = 0 then 0 else sqrt (vxy / sqrt (vx * vy)))"

section \<open>Sample inputs\<close>

text \<open>Two small estimators: one predicts the mean of the training targets, the other the
  first feature of the row.\<close>

definition mean_model :: model where
  "mean_model X y row = mean y"

definition first_feature_model :: model where
  "first_feature_model X y row = (case row of [] \<Rightarrow> 0 | v # _ \<Rightarrow> v)"

definition three_rows :: table where
  "three_rows = \<lparr>index_len = 3, columns = [(''a'', [1, 2, 3])]\<rparr>"

definition far_near :: table where
  "far_near = \<lparr>index_len = 3, columns = [(''far'', [4, 4, 4]), (''near'', [1, 2, 3])]\<rparr>"

definition no_columns :: table where
  "no_columns = \<lparr>index_len = 3, columns = []\<rparr>"

text \<open>A sorting routine that keeps equal entries in index order, and the clustering that
  leaves every feature alone in its cluster.\<close>

definition stable_argsort :: argsort where
  "stable_argsort xs = sort_key (\<lambda>i. xs ! i) [0..<length xs]"

definition each_alone :: clustering where
  "each_alone d pref = map int [0..<length d]"

definition with_constant :: table where
  "with_constant = \<lparr>index_len = 2, columns = [(''a'', [0, 2]), (''c'', [1, 1])]\<rparr>"

definition opposed :: table where
  "opposed = \<lparr>index_len = 2, columns = [(''a'', [0, 2]), (''b'', [2, 0])]\<rparr>"

section \<open>Properties of the scoring engine\<close>

lemma mean_nonneg: "list_all (\<lambda>x. 0 \<le> x) xs \<Longrightarrow> 0 \<le> mean xs"
  by (simp add: mean_def sum_list_nonneg list_all_iff)

lemma mse_nonneg: "0 \<le> mean_squared_error a b"
  unfolding mean_squared_error_def sq_errors_def
  by (rule mean_nonneg) (auto simp: list_all_iff)

lemma neg_rmse_sq: "(neg_rmse a b)\<^sup>2 = mean_squared_error a b"
  by (simp add: neg_rmse_def mse_nonneg)

lemma to_rows_length: "length (to_rows t) = index_len t"
  by (simp add: to_rows_def)

lemma cv_score_None:
  "cv_score t y m score_fn None = cv_score t y m score_fn (Some (int (length y)))"
  by (simp add: cv_score_def score_model_def)

lemma cv_score_rmse:
  assumes "index_len t = length y" "2 \<le> k" "k \<le> int (length y)"
  shows "cv_score t y m None (Some k) =
           Inr (- sqrt (mean (map (fold_mse m (to_rows t) y) (kfold (length y) (nat k)))))"
  using assms
  by (simp add: cv_score_def score_model_def cross_validate_def check_cv_def to_rows_length
        aggregate_def getitem_def fold_score_def neg_rmse_sq fold_mse_def[abs_def] comp_def)

lemma cv_score_user:
  assumes "index_len t = length y" "2 \<le> k" "k \<le> int (length y)"
  shows "cv_score t y m (Some f) (Some k) =
           Inr (mean (map (fold_score m f (to_rows t) y) (kfold (length y) (nat k))))"
  using assms
  by (simp add: cv_score_def score_model_def cross_validate_def check_cv_def to_rows_length
        aggregate_def getitem_def)

lemma cv_score_error:
  "check_cv (to_rows t) y k = Some e \<Longrightarrow> cv_score t y m score_fn (Some k) = Inl e"
  by (simp add: cv_score_def score_model_def cross_validate_def)

subsection \<open>Folds of equal size\<close>

lemma mean_of_means:
  assumes "\<forall>b\<in>set bs. length (g b) = s" "0 < s" "bs \<noteq> []"
  shows "mean (map (\<lambda>b. mean (g b)) bs) = mean (concat (map g bs))"
proof -
  have len: "length (concat (map g bs)) = length bs * s"
    using assms(1) by (induction bs) (auto simp: length_concat)
  have sm: "sum_list (concat (map g bs)) = sum_list (map (\<lambda>b. sum_list (g b)) bs)"
    by (induction bs) auto
  have "sum_list (map (\<lambda>b. mean (g b)) bs) = sum_list (map (\<lambda>b. sum_list (g b)) bs) / real s"
    using assms(1) by (induction bs) (auto simp: mean_def add_divide_distrib)
  then show ?thesis
    using assms(2,3) by (simp add: mean_def len sm)
qed

lemma fold_bounds_replicate:
  "fold_bounds a (replicate j s) = map (\<lambda>i. (a + i * s, s)) [0..<j]"
proof (induction j arbitrary: a)
  case 0
  show ?case by simp
next
  case (Suc j)
  have "map (\<lambda>i. (a + i * s, s)) [0..<Suc j] = (a, s) # map (\<lambda>i. (a + s + i * s, s)) [0..<j]"
    by (simp add: upt_rec[of 0 "Suc j"] map_Suc_upt[symmetric] del: upt_Suc)
  then show ?case using Suc by simp
qed

lemma kfold_dvd:
  assumes "k dvd n" "0 < k"
  shows "kfold n k = map (\<lambda>i. (i * (n div k), n div k)) [0..<k]"
proof -
  have "fold_sizes n k = replicate k (n div k)"
    using assms by (simp add: fold_sizes_def map_replicate_const)
  then show ?thesis by (simp add: kfold_def fold_bounds_replicate)
qed

lemma sq_errors_fold_length:
  assumes "length X = length y" "fst b + snd b \<le> length y"
  shows "length (sq_errors (test_part b y) (fold_predict m X y b)) = snd b"
  using assms by (simp add: sq_errors_def fold_predict_def test_part_def)

lemma equal_folds_pooled:
  assumes "length X = length y" "k dvd length y" "0 < k" "0 < length y"
  shows "mean (map (fold_mse m X y) (kfold (length y) k)) = mean (held_out_sq_errors m X y k)"
proof -
  let ?s = "length y div k"
  have spos: "0 < ?s"
    using assms(2,3,4) by (metis div_greater_zero_iff dvd_imp_le gr0I less_imp_le not_less)
  have bnd: "\<forall>b\<in>set (kfold (length y) k). snd b = ?s \<and> fst b + snd b \<le> length y"
  proof
    fix b assume "b \<in> set (kfold (length y) k)"
    then obtain i where i: "i < k" "b = (i * ?s, ?s)"
      using assms by (auto simp: kfold_dvd)
    have "(i + 1) * ?s \<le> k * ?s" using i(1) by (intro mult_le_mono1) simp
    also have "k * ?s = length y" using assms(2) by simp
    finally show "snd b = ?s \<and> fst b + snd b \<le> length y" using i(2) by simp
  qed
  have ne: "kfold (length y) k \<noteq> []" using assms by (simp add: kfold_dvd)
  have "\<forall>b\<in>set (kfold (length y) k).
          length (sq_errors (test_part b y) (fold_predict m X y b)) = ?s"
    using bnd sq_errors_fold_length[OF assms(1)] by auto
  from mean_of_means[OF this spos ne] show ?thesis
    by (simp add: fold_mse_def[abs_def] mean_squared_error_def held_out_sq_errors_def)
qed

subsection \<open>The aggregate score\<close>

lemma three_rows_to_rows: "to_rows three_rows = [[1], [2], [3]]"
  by code_simp

lemma three_rows_fold_mse:
  "map (fold_mse mean_model [[1], [2], [3]] [0, 2, 3]) (kfold (length [0, 2, 3 :: real]) (nat 2))
     = [5, 4]"
  by code_simp

lemma three_rows_held_out:
  "held_out_sq_errors mean_model [[1], [2], [3]] [0, 2, 3] 2 = [9, 1, 4]"
  by code_simp

lemma three_rows_aggregate:
  "cv_score three_rows [0, 2, 3] mean_model None (Some 2) = Inr (- sqrt (9 / 2))"
proof -
  have "index_len three_rows = length [0, 2, 3 :: real]" by (simp add: three_rows_def)
  from cv_score_rmse[OF this, of 2 mean_model] show ?thesis
    unfolding three_rows_to_rows three_rows_fold_mse by (simp add: mean_def)
qed

lemma three_rows_pooled:
  "pooled_neg_rmse mean_model (to_rows three_rows) [0, 2, 3] 2 = - sqrt (14 / 3)"
  unfolding pooled_neg_rmse_def three_rows_to_rows three_rows_held_out by (simp add: mean_def)

text \<open>
  C1, as the code has it. With a valid fold count and no user score function, the
  aggregate score that forward selection and ranking take from \<open>score_model\<close> is the
  negated square root of the mean, over the folds, of each fold's mean squared held-out
  error: every fold weighs the same, whatever its size. When the fold count divides the
  sample count (all folds have the same size), and so for the default leave-one-out, this
  is the pooled score over all held-out rows.
\<close>

theorem aggregate_score_mean_of_fold_mse:
  assumes "index_len t = length y" "2 \<le> k" "k \<le> int (length y)"
  shows "cv_score t y m None (Some k) =
           Inr (- sqrt (mean (map (fold_mse m (to_rows t) y) (kfold (length y) (nat k)))))
       \<and> (nat k dvd length y \<longrightarrow>
            cv_score t y m None (Some k) = Inr (pooled_neg_rmse m (to_rows t) y (nat k)))
       \<and> cv_score t y m None None = Inr (pooled_neg_rmse m (to_rows t) y (length y))"
proof -
  have X: "length (to_rows t) = length y" using assms(1) by (simp add: to_rows_length)
  have pos: "0 < length y" using assms(2,3) by linarith
  have a: "cv_score t y m None (Some k) =
             Inr (- sqrt (mean (map (fold_mse m (to_rows t) y) (kfold (length y) (nat k)))))"
    by (rule cv_score_rmse[OF assms])
  have b: "cv_score t y m None (Some k) = Inr (pooled_neg_rmse m (to_rows t) y (nat k))"
    if "nat k dvd length y"
  proof -
    have "0 < nat k" using assms(2) by simp
    from equal_folds_pooled[OF X that this pos] show ?thesis
      by (simp add: a pooled_neg_rmse_def)
  qed
  have n2: "2 \<le> int (length y)" using assms(2,3) by linarith
  have "cv_score t y m None (Some (int (length y))) =
          Inr (- sqrt (mean (map (fold_mse m (to_rows t) y) (kfold (length y) (length y)))))"
    using cv_score_rmse[OF assms(1) n2, of m] by simp
  moreover have "mean (map (fold_mse m (to_rows t) y) (kfold (length y) (length y)))
                   = mean (held_out_sq_errors m (to_rows t) y (length y))"
    by (rule equal_folds_pooled[OF X _ pos pos]) simp
  ultimately have c: "cv_score t y m None None = Inr (pooled_neg_rmse m (to_rows t) y (length y))"
    by (simp add: cv_score_None pooled_neg_rmse_def)
  from a b c show ?thesis by blast
qed

theorem aggregate_score_mean_of_fold_mse_witness:
  "cv_score three_rows [0, 2, 3] mean_model None (Some 3)
     = Inr (pooled_neg_rmse mean_model (to_rows three_rows) [0, 2, 3] 3)"
proof -
  have h1: "index_len three_rows = length [0, 2, 3 :: real]" by (simp add: three_rows_def)
  have h2: "(2::int) \<le> 3" by simp
  have h3: "(3::int) \<le> int (length [0, 2, 3 :: real])" by simp
  have d: "nat 3 dvd length [0, 2, 3 :: real]" by (simp add: numeral_3_eq_3)
  from aggregate_score_mean_of_fold_mse[OF h1 h2 h3, of mean_model]
  have "nat 3 dvd length [0, 2, 3 :: real] \<longrightarrow>
          cv_score three_rows [0, 2, 3] mean_model None (Some 3)
            = Inr (pooled_neg_rmse mean_model (to_rows three_rows) [0, 2, 3] (nat 3))"
    by blast
  with d show ?thesis by simp
qed

text \<open>
  C1 as stated fails when the folds differ in size: three rows in two folds, the
  estimator that predicts the mean of its training targets.
\<close>

theorem aggregate_score_pooled_counterexample:
  "cv_score three_rows [0, 2, 3] mean_model None (Some 2) = Inr (- sqrt (9 / 2))
   \<and> pooled_neg_rmse mean_model (to_rows three_rows) [0, 2, 3] 2 = - sqrt (14 / 3)
   \<and> cv_score three_rows [0, 2, 3] mean_model None (Some 2)
       \<noteq> Inr (pooled_neg_rmse mean_model (to_rows three_rows) [0, 2, 3] 2)"
  by (simp add: three_rows_aggregate three_rows_pooled)

subsection \<open>Argument checks\<close>

lemma check_cv_cases:
  "check_cv X y k =
     (if length X \<noteq> length y then Some DimensionMismatch
      else if k < 2 \<or> int (length y) < k then Some InvalidFoldCount else None)"
  by (simp add: check_cv_def)

lemma score_model_check:
  "check_cv (to_rows t) y (case cv of None \<Rightarrow> int (length y) | Some k \<Rightarrow> k) = Some e
     \<Longrightarrow> score_model t y m score_fn cv fp = Inl e"
  by (simp add: score_model_def cross_validate_def)

lemma score_model_returns:
  "check_cv (to_rows t) y (case cv of None \<Rightarrow> int (length y) | Some k \<Rightarrow> k) = None
     \<Longrightarrow> \<exists>r. score_model t y m score_fn cv fp = Inr r"
  by (simp add: score_model_def cross_validate_def cross_val_predict_def Let_def)

text \<open>
  C8. \<open>score_model\<close> hands the table, the target and the fold count to the
  cross-validation routine unchanged (an absent fold count becomes the sample count).
  A table whose row count differs from the target length fails with \<open>DimensionMismatch\<close>,
  whatever the fold count; with matching lengths, every fold count below 2 or above the
  sample count fails with \<open>InvalidFoldCount\<close>; and with at least two samples, the fold
  count equal to the sample count, given or by default, returns a result.
\<close>

theorem score_model_argument_checks:
  "(index_len t \<noteq> length y \<longrightarrow> score_model t y m score_fn cv fp = Inl DimensionMismatch)
   \<and> (index_len t = length y \<and> (k < 2 \<or> int (length y) < k) \<longrightarrow>
        score_model t y m score_fn (Some k) fp = Inl InvalidFoldCount)
   \<and> (index_len t = length y \<and> 2 \<le> length y \<longrightarrow>
        (\<exists>r. score_model t y m score_fn (Some (int (length y))) fp = Inr r)
        \<and> (\<exists>r. score_model t y m score_fn None fp = Inr r))"
proof (intro conjI impI)
  assume "index_len t \<noteq> length y"
  then show "score_model t y m score_fn cv fp = Inl DimensionMismatch"
    by (intro score_model_check) (simp add: check_cv_def to_rows_length)
next
  assume "index_len t = length y \<and> (k < 2 \<or> int (length y) < k)"
  then show "score_model t y m score_fn (Some k) fp = Inl InvalidFoldCount"
    by (intro score_model_check) (auto simp: check_cv_def to_rows_length)
next
  assume a: "index_len t = length y \<and> 2 \<le> length y"
  then show "\<exists>r. score_model t y m score_fn (Some (int (length y))) fp = Inr r"
    by (intro score_model_returns) (simp add: check_cv_def to_rows_length)
  from a show "\<exists>r. score_model t y m score_fn None fp = Inr r"
    by (intro score_model_returns) (simp add: check_cv_def to_rows_length)
qed

theorem score_model_argument_checks_witness:
  "score_model three_rows [0, 2] mean_model None (Some 2) False = Inl DimensionMismatch
   \<and> score_model three_rows [0, 2, 3] mean_model None (Some 1) False = Inl InvalidFoldCount
   \<and> score_model three_rows [0, 2, 3] mean_model None (Some 4) False = Inl InvalidFoldCount
   \<and> (\<exists>r. score_model three_rows [0, 2, 3] mean_model None (Some 3) False = Inr r)
   \<and> (\<exists>r. score_model three_rows [0, 2, 3] mean_model None None False = Inr r)"
proof -
  have l: "index_len three_rows = length [0, 2, 3 :: real]" by (simp add: three_rows_def)
  have n: "index_len three_rows \<noteq> length [0, 2 :: real]" by (simp add: three_rows_def)
  have "score_model three_rows [0, 2] mean_model None (Some 2) False = Inl DimensionMismatch"
    using score_model_argument_checks[of three_rows "[0, 2]" mean_model None "Some 2" False 0] n
    by blast
  moreover have "score_model three_rows [0, 2, 3] mean_model None (Some 1) False = Inl InvalidFoldCount"
    using score_model_argument_checks[of three_rows "[0, 2, 3]" mean_model None None False 1] l
    by simp
  moreover have "score_model three_rows [0, 2, 3] mean_model None (Some 4) False = Inl InvalidFoldCount"
    using score_model_argument_checks[of three_rows "[0, 2, 3]" mean_model None None False 4] l
    by simp
  moreover have "(\<exists>r. score_model three_rows [0, 2, 3] mean_model None (Some 3) False = Inr r)
   \<and> (\<exists>r. score_model three_rows [0, 2, 3] mean_model None None False = Inr r)"
    using score_model_argument_checks[of three_rows "[0, 2, 3]" mean_model None None False 0] l
    by simp
  ultimately show ?thesis by blast
qed

section \<open>Properties of the ranking engine\<close>

lemma cv_score_returns:
  assumes "index_len t = length y" "valid_folds cv (length y)"
  shows "\<exists>s. cv_score t y m score_fn cv = Inr s"
proof -
  obtain k where k: "cv_score t y m score_fn cv = cv_score t y m score_fn (Some k)" "2 \<le> k" "k \<le> int (length y)"
    using assms(2) by (cases cv) (auto simp: valid_folds_def cv_score_None)
  show ?thesis
  proof (cases score_fn)
    case None
    then show ?thesis using cv_score_rmse[OF assms(1) k(2,3)] k(1) by simp
  next
    case (Some f)
    then show ?thesis using cv_score_user[OF assms(1) k(2,3)] k(1) by simp
  qed
qed

lemma rank_loop_Inr:
  "rank_loop t y m score_fn cv cs acc = Inr r
     \<Longrightarrow> \<exists>ss. r = acc @ ss \<and> map (\<lambda>c. cv_score (single t c) y m score_fn cv) cs = map Inr ss"
proof (induction cs arbitrary: acc)
  case Nil
  then show ?case by simp
next
  case (Cons c cs)
  then obtain s where s: "cv_score (single t c) y m score_fn cv = Inr s"
    and r: "rank_loop t y m score_fn cv cs (acc @ [s]) = Inr r"
    by (auto split: sum.splits)
  from Cons.IH[OF r] obtain ss where "r = (acc @ [s]) @ ss"
    "map (\<lambda>c. cv_score (single t c) y m score_fn cv) cs = map Inr ss" by blast
  then have "r = acc @ (s # ss) \<and> map (\<lambda>c. cv_score (single t c) y m score_fn cv) (c # cs) = map Inr (s # ss)"
    using s by simp
  then show ?case by blast
qed

lemma rank_loop_returns:
  "\<forall>c\<in>set cs. \<exists>s. cv_score (single t c) y m score_fn cv = Inr s
     \<Longrightarrow> \<exists>r. rank_loop t y m score_fn cv cs acc = Inr r \<and> length r = length acc + length cs"
proof (induction cs arbitrary: acc)
  case Nil
  then show ?case by simp
next
  case (Cons c cs)
  then obtain s where s: "cv_score (single t c) y m score_fn cv = Inr s" by auto
  from Cons.IH[of "acc @ [s]"] Cons.prems show ?case by (auto simp: s)
qed

text \<open>
  C9. Whenever \<open>ranking\<close> returns, the list of the cross-validated scores of the
  single-column tables, taken in the order of the columns of the input, is the returned
  list: one score per column, the i-th for the i-th column, nothing reordered. It does
  return on a table with at least one column, rows matching the target and a valid fold
  count.
\<close>

theorem ranking_keeps_column_order:
  "(ranking t y m score_fn cv = Inr scores \<longrightarrow>
      map (\<lambda>c. cv_score (single t c) y m score_fn cv) (columns t) = map Inr scores)
   \<and> (columns t \<noteq> [] \<and> index_len t = length y \<and> valid_folds cv (length y) \<longrightarrow>
        (\<exists>scores. ranking t y m score_fn cv = Inr scores))"
proof (intro conjI impI)
  assume "ranking t y m score_fn cv = Inr scores"
  then have "rank_loop t y m score_fn cv (columns t) [] = Inr scores"
    by (auto simp: ranking_def split: sum.splits if_splits)
  from rank_loop_Inr[OF this] show "map (\<lambda>c. cv_score (single t c) y m score_fn cv) (columns t) = map Inr scores"
    by simp
next
  assume a: "columns t \<noteq> [] \<and> index_len t = length y \<and> valid_folds cv (length y)"
  then have "\<forall>c\<in>set (columns t). \<exists>s. cv_score (single t c) y m score_fn cv = Inr s"
    by (auto intro!: cv_score_returns simp: single_def)
  from rank_loop_returns[OF this, of "[]"] a show "\<exists>scores. ranking t y m score_fn cv = Inr scores"
    by (auto simp: ranking_def)
qed

lemma far_rows: "to_rows \<lparr>index_len = 3, columns = [(''far'', [4, 4, 4])]\<rparr> = [[4], [4], [4]]"
  by code_simp

lemma near_rows: "to_rows \<lparr>index_len = 3, columns = [(''near'', [1, 2, 3])]\<rparr> = [[1], [2], [3]]"
  by code_simp

lemma far_fold_mse:
  "map (fold_mse first_feature_model [[4], [4], [4]] [1, 2, 3])
     (kfold (length [1, 2, 3 :: real]) (nat (int (length [1, 2, 3 :: real])))) = [9, 4, 1]"
  by code_simp

lemma near_fold_mse:
  "map (fold_mse first_feature_model [[1], [2], [3]] [1, 2, 3])
     (kfold (length [1, 2, 3 :: real]) (nat (int (length [1, 2, 3 :: real])))) = [0, 0, 0]"
  by code_simp

lemma far_score:
  "cv_score \<lparr>index_len = 3, columns = [(''far'', [4, 4, 4])]\<rparr> [1, 2, 3] first_feature_model None None
     = Inr (- sqrt (14 / 3))"
proof -
  have "index_len \<lparr>index_len = 3, columns = [(''far'', [4, 4, 4])]\<rparr> = length [1, 2, 3 :: real]"
    by simp
  from cv_score_rmse[OF this, of "int (length [1, 2, 3 :: real])" first_feature_model]
  show ?thesis
    unfolding cv_score_None far_rows far_fold_mse by (simp add: mean_def)
qed

lemma near_score:
  "cv_score \<lparr>index_len = 3, columns = [(''near'', [1, 2, 3])]\<rparr> [1, 2, 3] first_feature_model None None
     = Inr 0"
proof -
  have "index_len \<lparr>index_len = 3, columns = [(''near'', [1, 2, 3])]\<rparr> = length [1, 2, 3 :: real]"
    by simp
  from cv_score_rmse[OF this, of "int (length [1, 2, 3 :: real])" first_feature_model]
  show ?thesis
    unfolding cv_score_None near_rows near_fold_mse by (simp add: mean_def)
qed

lemma far_near_ranking:
  "ranking far_near [1, 2, 3] first_feature_model None None = Inr [- sqrt (14 / 3), 0]"
  by (simp add: ranking_def far_near_def single_def far_score near_score)

theorem ranking_keeps_column_order_witness:
  "map (\<lambda>c. cv_score (single far_near c) [1, 2, 3] first_feature_model None None) (columns far_near)
     = map Inr [- sqrt (14 / 3), 0]
   \<and> (\<exists>scores. ranking far_near [1, 2, 3] first_feature_model None None = Inr scores)"
proof -
  note th = ranking_keeps_column_order[of far_near "[1, 2, 3]" first_feature_model None None
              "[- sqrt (14 / 3), 0]"]
  have "columns far_near \<noteq> [] \<and> index_len far_near = length [1, 2, 3 :: real]
          \<and> valid_folds None (length [1, 2, 3 :: real])"
    by (simp add: far_near_def valid_folds_def)
  with th far_near_ranking show ?thesis by blast
qed

text \<open>
  C5, as the code has it. \<open>ranking\<close> returns the scores alone, without feature
  identifiers: as many as the table has columns, the score at position i being the score
  of the table that holds column i alone. The order is the order of the columns, not the
  order of the scores.
\<close>

theorem ranking_one_score_per_column:
  assumes "ranking t y m score_fn cv = Inr scores"
  shows "length scores = shape1 t
       \<and> (\<forall>i<shape1 t. cv_score (single t (columns t ! i)) y m score_fn cv = Inr (scores ! i))"
proof -
  from assms have "rank_loop t y m score_fn cv (columns t) [] = Inr scores"
    by (auto simp: ranking_def split: sum.splits if_splits)
  from rank_loop_Inr[OF this]
  have eq: "map (\<lambda>c. cv_score (single t c) y m score_fn cv) (columns t) = map Inr scores"
    by simp
  then have len: "length scores = shape1 t"
    unfolding shape1_def by (metis length_map)
  have "cv_score (single t (columns t ! i)) y m score_fn cv = Inr (scores ! i)" if "i < shape1 t" for i
  proof -
    have "map (\<lambda>c. cv_score (single t c) y m score_fn cv) (columns t) ! i = map Inr scores ! i"
      using eq by simp
    then show ?thesis using that len by (simp add: shape1_def)
  qed
  with len show ?thesis by blast
qed

theorem ranking_one_score_per_column_witness:
  "length [- sqrt (14 / 3), 0 :: real] = shape1 far_near
   \<and> cv_score (single far_near (columns far_near ! 0)) [1, 2, 3] first_feature_model None None
       = Inr ([- sqrt (14 / 3), 0] ! 0)
   \<and> cv_score (single far_near (columns far_near ! 1)) [1, 2, 3] first_feature_model None None
       = Inr ([- sqrt (14 / 3), 0] ! 1)"
proof -
  have "(0::nat) < shape1 far_near" "(1::nat) < shape1 far_near"
    by (simp_all add: far_near_def shape1_def)
  with ranking_one_score_per_column[OF far_near_ranking] show ?thesis by blast
qed

text \<open>
  C5 as stated fails: with a first column that predicts badly and a second that predicts
  exactly, the returned scores are increasing.
\<close>

theorem ranking_sorted_counterexample:
  "ranking far_near [1, 2, 3] first_feature_model None None = Inr [- sqrt (14 / 3), 0]
   \<and> \<not> sorted_desc [- sqrt (14 / 3), 0]"
  by (simp add: far_near_ranking sorted_desc_def)

section \<open>Properties of forward selection\<close>

lemma exceeds_trans: "exceeds s b \<Longrightarrow> s < s' \<Longrightarrow> exceeds s' b"
  by (cases b) auto

lemma not_exceeds_le: "\<not> exceeds s b \<Longrightarrow> exceeds s' b \<Longrightarrow> s < s'"
  by (cases b) auto

lemma scan_candidates_Inr:
  "scan_candidates y m score_fn cv sel cs b = Inr b'
   \<Longrightarrow> \<exists>ss. trial_scores y m score_fn cv sel cs = map Inr ss
          \<and> ((\<forall>i<length ss. \<not> exceeds (ss ! i) (best_score b)) \<and> b' = b
             \<or> (\<exists>j. first_max ss j \<and> exceeds (ss ! j) (best_score b)
                    \<and> b' = candidate (cs ! j) (ss ! j)))"
proof (induction cs arbitrary: b)
  case Nil
  then show ?case by (simp add: trial_scores_def)
next
  case (Cons c cs)
  from Cons.prems obtain s where s: "cv_score (concat_col sel c) y m score_fn cv = Inr s"
    and r0: "scan_candidates y m score_fn cv sel cs
              (if exceeds s (best_score b)
               then \<lparr>best_score = Some s, best_feat = snd c, best_key = fst c\<rparr> else b) = Inr b'"
    by (auto split: sum.splits)
  let ?b1 = "if exceeds s (best_score b) then candidate c s else b"
  have r: "scan_candidates y m score_fn cv sel cs ?b1 = Inr b'"
    using r0 by (cases "exceeds s (best_score b)") (simp_all add: candidate_def)
  from Cons.IH[OF r] obtain ss where ss: "trial_scores y m score_fn cv sel cs = map Inr ss"
    and alt: "(\<forall>i<length ss. \<not> exceeds (ss ! i) (best_score ?b1)) \<and> b' = ?b1
             \<or> (\<exists>j. first_max ss j \<and> exceeds (ss ! j) (best_score ?b1)
                    \<and> b' = candidate (cs ! j) (ss ! j))"
    by blast
  have ts: "trial_scores y m score_fn cv sel (c # cs) = map Inr (s # ss)"
    using s ss by (simp add: trial_scores_def)
  show ?case
  proof (cases "exceeds s (best_score b)")
    case True
    then have b1: "?b1 = candidate c s" by simp
    from alt show ?thesis
    proof
      assume a: "(\<forall>i<length ss. \<not> exceeds (ss ! i) (best_score ?b1)) \<and> b' = ?b1"
      then have le: "\<forall>i<length ss. ss ! i \<le> s" by (auto simp: b1 candidate_def not_less)
      have "first_max (s # ss) 0"
        using le by (auto simp: first_max_def nth_Cons')
      moreover have "b' = candidate ((c # cs) ! 0) ((s # ss) ! 0)" using a b1 by simp
      ultimately show ?thesis using ts True by (intro exI[of _ "s # ss"]) auto
    next
      assume "\<exists>j. first_max ss j \<and> exceeds (ss ! j) (best_score ?b1)
                    \<and> b' = candidate (cs ! j) (ss ! j)"
      then obtain j where j: "first_max ss j" "s < ss ! j" "b' = candidate (cs ! j) (ss ! j)"
        by (auto simp: b1 candidate_def)
      have "first_max (s # ss) (Suc j)"
        using j(1,2) by (auto simp: first_max_def nth_Cons' less_Suc_eq_0_disj)
      moreover have "exceeds ((s # ss) ! Suc j) (best_score b)"
        using exceeds_trans[OF True j(2)] by simp
      moreover have "b' = candidate ((c # cs) ! Suc j) ((s # ss) ! Suc j)" using j(3) by simp
      ultimately show ?thesis using ts by (intro exI[of _ "s # ss"]) blast
    qed
  next
    case False
    then have b1: "?b1 = b" by simp
    from alt show ?thesis
    proof
      assume a: "(\<forall>i<length ss. \<not> exceeds (ss ! i) (best_score ?b1)) \<and> b' = ?b1"
      then have "(\<forall>i<length (s # ss). \<not> exceeds ((s # ss) ! i) (best_score b)) \<and> b' = b"
        using False by (auto simp: b1 nth_Cons' )
      then show ?thesis using ts by (intro exI[of _ "s # ss"]) blast
    next
      assume "\<exists>j. first_max ss j \<and> exceeds (ss ! j) (best_score ?b1)
                    \<and> b' = candidate (cs ! j) (ss ! j)"
      then obtain j where j: "first_max ss j" "exceeds (ss ! j) (best_score b)"
        "b' = candidate (cs ! j) (ss ! j)"
        by (auto simp: b1)
      have "s < ss ! j" using not_exceeds_le[OF False j(2)] .
      then have "first_max (s # ss) (Suc j)"
        using j(1) by (auto simp: first_max_def nth_Cons' less_Suc_eq_0_disj)
      moreover have "exceeds ((s # ss) ! Suc j) (best_score b)" using j(2) by simp
      moreover have "b' = candidate ((c # cs) ! Suc j) ((s # ss) ! Suc j)" using j(3) by simp
      ultimately show ?thesis using ts by (intro exI[of _ "s # ss"]) blast
    qed
  qed
qed

lemma scan_candidates_returns:
  "\<forall>c\<in>set cs. \<exists>s. cv_score (concat_col sel c) y m score_fn cv = Inr s
     \<Longrightarrow> \<exists>b'. scan_candidates y m score_fn cv sel cs b = Inr b'"
proof (induction cs arbitrary: b)
  case Nil
  then show ?case by simp
next
  case (Cons c cs)
  then obtain s where s: "cv_score (concat_col sel c) y m score_fn cv = Inr s" by auto
  from Cons.prems have "\<forall>c\<in>set cs. \<exists>s. cv_score (concat_col sel c) y m score_fn cv = Inr s" by simp
  from Cons.IH[OF this] show ?case by (simp add: s)
qed

lemma trial_scores_length: "trial_scores y m score_fn cv sel cs = map Inr ss \<Longrightarrow> length ss = length cs"
  by (metis length_map trial_scores_def)

lemma fs_step_empty: "columns av = [] \<Longrightarrow> fs_step y m score_fn cv (sel, scs, av) = Inl IndexError"
  by (simp add: fs_step_def)

lemma fs_step_Inr:
  assumes "fs_step y m score_fn cv (sel, scs, av) = Inr (sel', scs', av')"
  shows "\<exists>j ss. trial_scores y m score_fn cv sel (columns av) = map Inr ss \<and> first_max ss j
           \<and> setitem sel (fst (columns av ! j)) (snd (columns av ! j)) = Inr sel'
           \<and> scs' = scs @ [ss ! j]
           \<and> pop av (fst (columns av ! j)) = Inr av'"
proof -
  from assms obtain c0 rest b s where cs: "columns av = c0 # rest"
    and sc: "scan_candidates y m score_fn cv sel (columns av)
               \<lparr>best_score = None, best_feat = [], best_key = fst c0\<rparr> = Inr b"
    and si: "setitem sel (best_key b) (best_feat b) = Inr sel'"
    and bs: "best_score b = Some s"
    and pp: "pop av (best_key b) = Inr av'"
    and sc': "scs' = scs @ [s]"
    by (auto simp: fs_step_def split: list.splits sum.splits option.splits)
  from scan_candidates_Inr[OF sc] obtain ss where
    ts: "trial_scores y m score_fn cv sel (columns av) = map Inr ss"
    and alt: "(\<forall>i<length ss. \<not> exceeds (ss ! i) None) \<and>
                b = \<lparr>best_score = None, best_feat = [], best_key = fst c0\<rparr>
              \<or> (\<exists>j. first_max ss j \<and> exceeds (ss ! j) None
                     \<and> b = candidate (columns av ! j) (ss ! j))"
    by auto
  from alt bs obtain j where j: "first_max ss j" "b = candidate (columns av ! j) (ss ! j)"
    by auto
  have "s = ss ! j" "best_key b = fst (columns av ! j)" "best_feat b = snd (columns av ! j)"
    using j(2) bs by (simp_all add: candidate_def)
  with ts j(1) si sc' pp show ?thesis by auto
qed

lemma filter_distinct_nth:
  assumes "distinct (map fst cs)" "j < length cs"
  shows "filter (\<lambda>c. fst c \<noteq> fst (cs ! j)) cs = take j cs @ drop (Suc j) cs"
proof -
  have split: "cs = take j cs @ cs ! j # drop (Suc j) cs"
    using assms(2) by (rule id_take_nth_drop)
  have d: "distinct (map fst (take j cs) @ fst (cs ! j) # map fst (drop (Suc j) cs))"
    using assms(1) by (subst (asm) split) simp
  have d1: "fst (cs ! j) \<notin> fst ` set (take j cs)" "fst (cs ! j) \<notin> fst ` set (drop (Suc j) cs)"
    using d by auto
  have a: "\<forall>c\<in>set (take j cs). fst c \<noteq> fst (cs ! j)" using d1(1) by (metis imageI)
  have b: "\<forall>c\<in>set (drop (Suc j) cs). fst c \<noteq> fst (cs ! j)" using d1(2) by (metis imageI)
  have "filter (\<lambda>c. fst c \<noteq> fst (cs ! j)) (take j cs @ cs ! j # drop (Suc j) cs)
          = take j cs @ drop (Suc j) cs"
    using a b by (simp add: filter_id_conv)
  with split show ?thesis by simp
qed

lemma fs_step_distinct:
  assumes "fs_step y m score_fn cv (sel, scs, av) = Inr (sel', scs', av')"
    and "distinct (keys sel @ keys av)"
  shows "\<exists>j ss. trial_scores y m score_fn cv sel (columns av) = map Inr ss \<and> first_max ss j
           \<and> sel' = sel\<lparr>columns := columns sel @ [columns av ! j]\<rparr>
           \<and> scs' = scs @ [ss ! j]
           \<and> av' = av\<lparr>columns := take j (columns av) @ drop (Suc j) (columns av)\<rparr>"
proof -
  from fs_step_Inr[OF assms(1)] obtain j ss where
    ts: "trial_scores y m score_fn cv sel (columns av) = map Inr ss" and fm: "first_max ss j"
    and si: "setitem sel (fst (columns av ! j)) (snd (columns av ! j)) = Inr sel'"
    and sc: "scs' = scs @ [ss ! j]"
    and pp: "pop av (fst (columns av ! j)) = Inr av'"
    by blast
  have jl: "j < length (columns av)"
    using fm trial_scores_length[OF ts] by (simp add: first_max_def)
  then have "fst (columns av ! j) \<in> set (keys av)" by (simp add: keys_def)
  then have nin: "fst (columns av ! j) \<notin> set (keys sel)" using assms(2) by auto
  have s': "sel' = sel\<lparr>columns := columns sel @ [columns av ! j]\<rparr>"
    using si nin by (auto simp: setitem_def split: if_splits)
  have "distinct (map fst (columns av))" using assms(2) by (simp add: keys_def)
  from filter_distinct_nth[OF this jl] pp
  have a': "av' = av\<lparr>columns := take j (columns av) @ drop (Suc j) (columns av)\<rparr>"
    by (auto simp: pop_def split: if_splits)
  from ts fm s' sc a' show ?thesis by blast
qed

lemma fs_step_invariant:
  assumes "fs_step y m score_fn cv (sel, scs, av) = Inr (sel', scs', av')"
    and "distinct (keys sel @ keys av)"
  shows "distinct (keys sel' @ keys av')"
    and "set (columns sel') \<union> set (columns av') = set (columns sel) \<union> set (columns av)"
    and "shape1 sel' = Suc (shape1 sel)"
    and "length scs' = Suc (length scs)"
    and "Suc (length (columns av')) = length (columns av)"
    and "index_len sel' = index_len sel"
    and "index_len av' = index_len av"
proof -
  from fs_step_distinct[OF assms] obtain j ss where
    ts: "trial_scores y m score_fn cv sel (columns av) = map Inr ss" and fm: "first_max ss j"
    and s': "sel' = sel\<lparr>columns := columns sel @ [columns av ! j]\<rparr>"
    and sc: "scs' = scs @ [ss ! j]"
    and a': "av' = av\<lparr>columns := take j (columns av) @ drop (Suc j) (columns av)\<rparr>"
    by blast
  have jl: "j < length (columns av)"
    using fm trial_scores_length[OF ts] by (simp add: first_max_def)
  have split: "columns av = take j (columns av) @ columns av ! j # drop (Suc j) (columns av)"
    using jl by (rule id_take_nth_drop)
  have "distinct (keys sel @ map fst (take j (columns av) @ columns av ! j # drop (Suc j) (columns av)))"
    using assms(2) split by (simp add: keys_def)
  then show "distinct (keys sel' @ keys av')"
    unfolding s' a' keys_def by auto
  have "set (columns av) = set (take j (columns av) @ columns av ! j # drop (Suc j) (columns av))"
    using split by simp
  then show "set (columns sel') \<union> set (columns av') = set (columns sel) \<union> set (columns av)"
    unfolding s' a' by auto
  show "shape1 sel' = Suc (shape1 sel)" by (simp add: s' shape1_def)
  show "length scs' = Suc (length scs)" by (simp add: sc)
  show "Suc (length (columns av')) = length (columns av)" using jl by (simp add: a')
  show "index_len sel' = index_len sel" by (simp add: s')
  show "index_len av' = index_len av" by (simp add: a')
qed

lemma fs_loop_Inr:
  assumes "fs_loop y m score_fn cv mx (sel, scs, av) = Inr (self, scsf)"
    and "distinct (keys sel @ keys av)" "length scs = shape1 sel"
  shows "distinct (keys self) \<and> set (columns self) \<subseteq> set (columns sel) \<union> set (columns av)
         \<and> length scsf = shape1 self
         \<and> (if int (shape1 sel) < mx then int (shape1 self) = mx else self = sel \<and> scsf = scs)"
  using assms
proof (induction y m score_fn cv mx "(sel, scs, av)" arbitrary: sel scs av rule: fs_loop.induct)
  case (1 y m score_fn cv mx sel scs av)
  show ?case
  proof (cases "int (shape1 sel) < mx")
    case False
    with "1.prems" show ?thesis by (auto simp: fs_loop.simps)
  next
    case True
    with "1.prems"(1) obtain sel' scs' av' where
      st: "fs_step y m score_fn cv (sel, scs, av) = Inr (sel', scs', av')"
      and lp: "fs_loop y m score_fn cv mx (sel', scs', av') = Inr (self, scsf)"
      by (auto simp: fs_loop.simps split: sum.splits)
    note inv = fs_step_invariant[OF st "1.prems"(2)]
    have len: "length scs' = shape1 sel'" using inv(3,4) "1.prems"(3) by simp
    from "1.hyps"[OF True st lp inv(1) len]
    have ih: "distinct (keys self)" "set (columns self) \<subseteq> set (columns sel') \<union> set (columns av')"
      "length scsf = shape1 self"
      "if int (shape1 sel') < mx then int (shape1 self) = mx else self = sel' \<and> scsf = scs'"
      by auto
    have "int (shape1 self) = mx"
      using ih(4) inv(3) True by (auto split: if_splits)
    with ih(1,2,3) inv(2) True show ?thesis by auto
  qed
qed

lemma concat_col_index_len: "index_len (concat_col sel c) = index_len sel"
  by (simp add: concat_col_def)

lemma fs_step_returns:
  assumes "columns av \<noteq> []" "index_len sel = length y" "valid_folds cv (length y)"
    and "\<forall>c\<in>set (columns av). length (snd c) = index_len sel"
  shows "\<exists>st'. fs_step y m score_fn cv (sel, scs, av) = Inr st'"
proof -
  from assms(1) obtain c0 rest where cs: "columns av = c0 # rest" by (cases "columns av") auto
  let ?b0 = "\<lparr>best_score = None, best_feat = [], best_key = fst c0\<rparr>"
  have "\<forall>c\<in>set (columns av). \<exists>s. cv_score (concat_col sel c) y m score_fn cv = Inr s"
    using assms(2,3) by (auto intro!: cv_score_returns simp: concat_col_index_len)
  from scan_candidates_returns[OF this] obtain b where
    sc: "scan_candidates y m score_fn cv sel (columns av) ?b0 = Inr b" by blast
  from scan_candidates_Inr[OF sc] obtain ss where
    ts: "trial_scores y m score_fn cv sel (columns av) = map Inr ss"
    and alt: "(\<forall>i<length ss. \<not> exceeds (ss ! i) None) \<and> b = ?b0
              \<or> (\<exists>j. first_max ss j \<and> exceeds (ss ! j) None
                     \<and> b = candidate (columns av ! j) (ss ! j))"
    by auto
  have "0 < length ss" using trial_scores_length[OF ts] cs by simp
  with alt obtain j where j: "first_max ss j" "b = candidate (columns av ! j) (ss ! j)"
    by auto
  have jl: "j < length (columns av)"
    using j(1) trial_scores_length[OF ts] by (simp add: first_max_def)
  have bk: "best_key b = fst (columns av ! j)" "best_feat b = snd (columns av ! j)"
    "best_score b = Some (ss ! j)"
    using j(2) by (simp_all add: candidate_def)
  have "length (best_feat b) = index_len sel" using assms(4) jl bk(2) by simp
  then have "\<exists>sel'. setitem sel (best_key b) (best_feat b) = Inr sel'"
    by (simp add: setitem_def)
  then obtain sel' where si: "setitem sel (best_key b) (best_feat b) = Inr sel'" by blast
  have "best_key b \<in> set (keys av)" using jl bk(1) by (simp add: keys_def)
  then have "\<exists>av'. pop av (best_key b) = Inr av'" by (simp add: pop_def)
  then obtain av' where pp: "pop av (best_key b) = Inr av'" by blast
  show ?thesis using cs sc si bk(3) pp by (simp add: fs_step_def)
qed

lemma fs_step_sum:
  assumes "fs_step y m score_fn cv (sel, scs, av) = Inr (sel', scs', av')"
  shows "shape1 sel' + length (columns av') \<le> shape1 sel + length (columns av)"
proof -
  from fs_step_Inr[OF assms] obtain j where
    si: "setitem sel (fst (columns av ! j)) (snd (columns av ! j)) = Inr sel'"
    and pp: "pop av (fst (columns av ! j)) = Inr av'" by blast
  have "shape1 sel' \<le> Suc (shape1 sel)"
    using si by (auto simp: setitem_def shape1_def split: if_splits)
  moreover have "length (columns av') < length (columns av)" using pp by (rule pop_shorter)
  ultimately show ?thesis by simp
qed

lemma fs_loop_bound:
  assumes "fs_loop y m score_fn cv mx (sel, scs, av) = Inr (self, scsf)"
  shows "mx \<le> int (shape1 self) \<and> shape1 self \<le> shape1 sel + length (columns av)"
  using assms
proof (induction y m score_fn cv mx "(sel, scs, av)" arbitrary: sel scs av rule: fs_loop.induct)
  case (1 y m score_fn cv mx sel scs av)
  show ?case
  proof (cases "int (shape1 sel) < mx")
    case False
    with "1.prems" show ?thesis by (auto simp: fs_loop.simps)
  next
    case True
    with "1.prems"(1) obtain sel' scs' av' where
      st: "fs_step y m score_fn cv (sel, scs, av) = Inr (sel', scs', av')"
      and lp: "fs_loop y m score_fn cv mx (sel', scs', av') = Inr (self, scsf)"
      by (auto simp: fs_loop.simps split: sum.splits)
    from "1.hyps"[OF True st lp] fs_step_sum[OF st] show ?thesis by simp
  qed
qed

lemma fs_loop_runs:
  assumes "distinct (keys sel @ keys av)" "index_len sel = length y" "valid_folds cv (length y)"
    and "\<forall>c\<in>set (columns av). length (snd c) = index_len sel"
  shows "(mx \<le> int (shape1 sel + length (columns av))
            \<longrightarrow> (\<exists>res. fs_loop y m score_fn cv mx (sel, scs, av) = Inr res))
       \<and> (int (shape1 sel + length (columns av)) < mx
            \<longrightarrow> fs_loop y m score_fn cv mx (sel, scs, av) = Inl IndexError)"
  using assms
proof (induction y m score_fn cv mx "(sel, scs, av)" arbitrary: sel scs av rule: fs_loop.induct)
  case (1 y m score_fn cv mx sel scs av)
  show ?case
  proof (cases "int (shape1 sel) < mx")
    case False
    then show ?thesis by (auto simp: fs_loop.simps)
  next
    case True
    show ?thesis
    proof (cases "columns av = []")
      case True
      with \<open>int (shape1 sel) < mx\<close> show ?thesis by (simp add: fs_step_empty fs_loop.simps)
    next
      case False
      from fs_step_returns[OF False "1.prems"(2,3,4)] obtain sel' scs' av' where
        st: "fs_step y m score_fn cv (sel, scs, av) = Inr (sel', scs', av')"
        by (metis prod_cases3)
      note inv = fs_step_invariant[OF st "1.prems"(1)]
      have sub: "set (columns av') \<subseteq> set (columns av)"
        using fs_step_distinct[OF st "1.prems"(1)] by (auto dest: in_set_takeD in_set_dropD)
      have a4: "\<forall>c\<in>set (columns av'). length (snd c) = index_len sel'"
        using sub "1.prems"(4) inv(6) by auto
      have a2: "index_len sel' = length y" using inv(6) "1.prems"(2) by simp
      have sum: "shape1 sel' + length (columns av') = shape1 sel + length (columns av)"
        using inv(3,5) by simp
      from "1.hyps"[OF True st inv(1) a2 "1.prems"(3) a4] sum
      show ?thesis using True st by (simp add: fs_loop.simps)
    qed
  qed
qed

lemma far_near_step:
  "fs_step [1, 2, 3] first_feature_model None None (\<lparr>index_len = 3, columns = []\<rparr>, [], far_near)
     = Inr (\<lparr>index_len = 3, columns = [(''near'', [1, 2, 3])]\<rparr>, [0],
            \<lparr>index_len = 3, columns = [(''far'', [4, 4, 4])]\<rparr>)"
  by (simp add: fs_step_def far_near_def concat_col_def far_score near_score setitem_def pop_def keys_def)

lemma no_columns_forward:
  "forward_selection no_columns [1, 2, 3] 0 mean_model None None = Inl EmptySequence"
  by (simp add: forward_selection_def no_columns_def shape1_def fs_loop.simps)

lemma forward_selection_Inr:
  assumes "forward_selection t y n m score_fn cv = Inr (sel, scores)"
  shows "fs_loop y m score_fn cv (if n = 0 then int (shape1 t) else n)
           (\<lparr>index_len = index_len t, columns = []\<rparr>, [], t) = Inr (sel, scores)"
    and "scores \<noteq> []"
proof -
  let ?r = "fs_loop y m score_fn cv (if n = 0 then int (shape1 t) else n)
           (\<lparr>index_len = index_len t, columns = []\<rparr>, [], t)"
  from assms have c: "(case ?r of Inl e \<Rightarrow> Inl e
       | Inr (selected, selected_scores) \<Rightarrow>
           if selected_scores = [] then Inl EmptySequence
           else Inr (selected, selected_scores)) = Inr (sel, scores)"
    by (simp add: forward_selection_def Let_def)
  show "?r = Inr (sel, scores)" "scores \<noteq> []"
    using c by (cases ?r; cases "snd (projr ?r) = []"; auto)+
qed

text \<open>
  C2. One iteration of the loop of \<open>forward_selection\<close>, on tables whose column names are
  distinct: every available feature gets its trial score, in the order of the available
  table; the feature taken is at the first position whose score is strictly greater than
  all earlier scores and not below any score; it is appended to the selected table, its
  score is appended to the recorded scores, and it leaves the available table, whose
  other columns keep their order. The names stay distinct for the next iteration.
\<close>

theorem forward_step_first_strict_maximum:
  assumes "fs_step y m score_fn cv (sel, scs, av) = Inr (sel', scs', av')"
    and "distinct (keys sel @ keys av)"
  shows "\<exists>j ss. trial_scores y m score_fn cv sel (columns av) = map Inr ss \<and> first_max ss j
           \<and> sel' = sel\<lparr>columns := columns sel @ [columns av ! j]\<rparr>
           \<and> scs' = scs @ [ss ! j]
           \<and> av' = av\<lparr>columns := take j (columns av) @ drop (Suc j) (columns av)\<rparr>
           \<and> distinct (keys sel' @ keys av')"
  using fs_step_distinct[OF assms] fs_step_invariant(1)[OF assms] by blast

theorem forward_step_first_strict_maximum_witness:
  "\<exists>j ss. trial_scores [1, 2, 3] first_feature_model None None \<lparr>index_len = 3, columns = []\<rparr>
             (columns far_near) = map Inr ss \<and> first_max ss j
         \<and> \<lparr>index_len = 3, columns = [(''near'', [1, 2, 3])]\<rparr>
             = \<lparr>index_len = 3, columns = []\<rparr>\<lparr>columns := [] @ [columns far_near ! j]\<rparr>
         \<and> [0] = [] @ [ss ! j]
         \<and> \<lparr>index_len = 3, columns = [(''far'', [4, 4, 4])]\<rparr>
             = far_near\<lparr>columns := take j (columns far_near) @ drop (Suc j) (columns far_near)\<rparr>"
proof -
  have d: "distinct (keys \<lparr>index_len = 3, columns = []\<rparr> @ keys far_near)"
    by (simp add: keys_def far_near_def)
  from forward_step_first_strict_maximum[OF far_near_step d] show ?thesis by auto
qed

text \<open>
  C6. On a table with distinct column names, whenever \<open>forward_selection\<close> returns, the
  score sequence has the length asked for (the number of columns when 0 is given), there is
  one selected column per score, the selected names are distinct and every selected column
  is a column of the input. It does return when the table has a column, the number asked
  for is from 0 to the number of columns, the rows match the target and the fold count is
  valid.
\<close>

theorem forward_selection_scores_and_keys:
  assumes "well_formed t"
  shows "(forward_selection t y n m score_fn cv = Inr (sel, scores) \<longrightarrow>
            length scores = (if n = 0 then shape1 t else nat n) \<and> shape1 sel = length scores
            \<and> distinct (keys sel) \<and> set (columns sel) \<subseteq> set (columns t))
       \<and> (columns t \<noteq> [] \<and> 0 \<le> n \<and> n \<le> int (shape1 t) \<and> index_len t = length y
            \<and> valid_folds cv (length y)
            \<longrightarrow> (\<exists>sel scores. forward_selection t y n m score_fn cv = Inr (sel, scores)))"
proof -
  let ?mx = "if n = 0 then int (shape1 t) else n"
  let ?sel0 = "\<lparr>index_len = index_len t, columns = []\<rparr>"
  have d0: "distinct (keys ?sel0 @ keys t)" using assms by (simp add: well_formed_def keys_def)
  have l0: "length ([] :: real list) = shape1 ?sel0" by (simp add: shape1_def)
  have s0: "shape1 ?sel0 = 0" by (simp add: shape1_def)
  have part1: "length scores = (if n = 0 then shape1 t else nat n) \<and> shape1 sel = length scores
            \<and> distinct (keys sel) \<and> set (columns sel) \<subseteq> set (columns t)"
    if r: "forward_selection t y n m score_fn cv = Inr (sel, scores)"
  proof -
    from r have lp: "fs_loop y m score_fn cv ?mx (?sel0, [], t) = Inr (sel, scores)"
      and ne: "scores \<noteq> []"
      by (rule forward_selection_Inr)+
    from fs_loop_Inr[OF lp d0 l0]
    have p: "distinct (keys sel)" "set (columns sel) \<subseteq> set (columns t)"
      "length scores = shape1 sel"
      "if int (shape1 ?sel0) < ?mx then int (shape1 sel) = ?mx else sel = ?sel0 \<and> scores = []"
      by simp_all
    from p(4) ne have "int (shape1 sel) = ?mx" by (cases "int (shape1 ?sel0) < ?mx") simp_all
    then have "length scores = (if n = 0 then shape1 t else nat n)"
      using p(3) by (cases "n = 0") simp_all
    with p(1,2,3) show ?thesis by simp
  qed
  have part2: "\<exists>sel scores. forward_selection t y n m score_fn cv = Inr (sel, scores)"
    if a: "columns t \<noteq> [] \<and> 0 \<le> n \<and> n \<le> int (shape1 t) \<and> index_len t = length y
            \<and> valid_folds cv (length y)"
  proof -
    have w: "\<forall>c\<in>set (columns t). length (snd c) = index_len ?sel0"
      using assms by (simp add: well_formed_def list_all_iff)
    have i0: "index_len ?sel0 = length y" using a by simp
    have vf: "valid_folds cv (length y)" using a by simp
    have pos: "0 < ?mx" using a by (cases "n = 0") (simp_all add: shape1_def)
    have "?mx \<le> int (shape1 ?sel0 + length (columns t))"
      using a by (cases "n = 0") (simp_all add: shape1_def)
    with fs_loop_runs[OF d0 i0 vf w]
    have "\<exists>res. fs_loop y m score_fn cv ?mx (?sel0, [], t) = Inr res" by blast
    then obtain self scsf where lp: "fs_loop y m score_fn cv ?mx (?sel0, [], t) = Inr (self, scsf)"
      by (metis surj_pair)
    from fs_loop_Inr[OF lp d0 l0]
    have q: "length scsf = shape1 self"
      "if int (shape1 ?sel0) < ?mx then int (shape1 self) = ?mx else self = ?sel0 \<and> scsf = []"
      by simp_all
    from q(2) pos have "int (shape1 self) = ?mx" unfolding s0 by simp
    with pos q(1) have "scsf \<noteq> []" by auto
    with lp show ?thesis by (simp add: forward_selection_def Let_def)
  qed
  from part1 part2 show ?thesis by blast
qed

theorem forward_selection_scores_and_keys_witness:
  "\<exists>sel scores. forward_selection far_near [1, 2, 3] 0 first_feature_model None None = Inr (sel, scores)
     \<and> length scores = 2 \<and> shape1 sel = 2 \<and> distinct (keys sel)
     \<and> set (columns sel) \<subseteq> set (columns far_near)"
proof -
  have w: "well_formed far_near" by (simp add: well_formed_def far_near_def keys_def)
  have s2: "shape1 far_near = 2" by (simp add: far_near_def shape1_def)
  have a: "columns far_near \<noteq> [] \<and> (0::int) \<le> 0 \<and> 0 \<le> int (shape1 far_near)
             \<and> index_len far_near = length [1, 2, 3 :: real]
             \<and> valid_folds None (length [1, 2, 3 :: real])"
    by (simp add: far_near_def valid_folds_def)
  have "\<exists>sel scores. forward_selection far_near [1, 2, 3] 0 first_feature_model None None
          = Inr (sel, scores)"
    by (rule forward_selection_scores_and_keys[OF w, THEN conjunct2, THEN mp, OF a])
  then obtain sel scores where
    r: "forward_selection far_near [1, 2, 3] 0 first_feature_model None None = Inr (sel, scores)"
    by blast
  have p: "length scores = (if (0::int) = 0 then shape1 far_near else nat 0)
            \<and> shape1 sel = length scores
            \<and> distinct (keys sel) \<and> set (columns sel) \<subseteq> set (columns far_near)"
    by (rule forward_selection_scores_and_keys[OF w, THEN conjunct1, THEN mp, OF r])
  then have "length scores = 2" "shape1 sel = 2" "distinct (keys sel)"
    "set (columns sel) \<subseteq> set (columns far_near)"
    using s2 by simp_all
  with r show ?thesis by blast
qed

text \<open>
  C10, as the code has it. When the number of features asked for exceeds the number of
  columns, \<open>forward_selection\<close> never returns a result; and when every scoring call
  succeeds (distinct names, rows matching the target, a valid fold count) the failure is the
  access to the first column of the emptied available table.
\<close>

theorem forward_selection_beyond_columns:
  assumes "int (shape1 t) < n"
  shows "(\<exists>e. forward_selection t y n m score_fn cv = Inl e)
       \<and> (well_formed t \<and> index_len t = length y \<and> valid_folds cv (length y)
            \<longrightarrow> forward_selection t y n m score_fn cv = Inl IndexError)"
proof (intro conjI impI)
  let ?sel0 = "\<lparr>index_len = index_len t, columns = []\<rparr>"
  have n0: "n \<noteq> 0" using assms by auto
  have "\<not> (\<exists>r. fs_loop y m score_fn cv n (?sel0, [], t) = Inr r)"
  proof
    assume "\<exists>r. fs_loop y m score_fn cv n (?sel0, [], t) = Inr r"
    then obtain self scsf where "fs_loop y m score_fn cv n (?sel0, [], t) = Inr (self, scsf)"
      by (metis surj_pair)
    from fs_loop_bound[OF this] assms show False by (simp add: shape1_def)
  qed
  then obtain e where "fs_loop y m score_fn cv n (?sel0, [], t) = Inl e"
    by (cases "fs_loop y m score_fn cv n (?sel0, [], t)") auto
  then show "\<exists>e. forward_selection t y n m score_fn cv = Inl e"
    using n0 by (simp add: forward_selection_def)
next
  let ?sel0 = "\<lparr>index_len = index_len t, columns = []\<rparr>"
  assume a: "well_formed t \<and> index_len t = length y \<and> valid_folds cv (length y)"
  have n0: "n \<noteq> 0" using assms by auto
  have d0: "distinct (keys ?sel0 @ keys t)" using a by (simp add: well_formed_def keys_def)
  have w: "\<forall>c\<in>set (columns t). length (snd c) = index_len ?sel0"
    using a by (simp add: well_formed_def list_all_iff)
  have i0: "index_len ?sel0 = length y" using a by simp
  have vf: "valid_folds cv (length y)" using a by simp
  have "int (shape1 ?sel0 + length (columns t)) < n" using assms by (simp add: shape1_def)
  with fs_loop_runs[OF d0 i0 vf w]
  have "fs_loop y m score_fn cv n (?sel0, [], t) = Inl IndexError" by blast
  then show "forward_selection t y n m score_fn cv = Inl IndexError"
    using n0 by (simp add: forward_selection_def)
qed

theorem forward_selection_beyond_columns_witness:
  "forward_selection far_near [1, 2, 3] 3 first_feature_model None None = Inl IndexError"
proof -
  have a: "int (shape1 far_near) < 3" by (simp add: far_near_def shape1_def)
  have "well_formed far_near \<and> index_len far_near = length [1, 2, 3 :: real]
          \<and> valid_folds None (length [1, 2, 3 :: real])"
    by (simp add: well_formed_def far_near_def keys_def valid_folds_def)
  with forward_selection_beyond_columns[OF a, of "[1, 2, 3]" first_feature_model None None]
  show ?thesis by blast
qed

text \<open>
  C10 as stated fails on a table without columns when 0 (select all) is given: the loop
  bound is the column count, 0, so the loop body is never entered, and the call fails after
  the loop, on the empty score sequence.
\<close>

theorem forward_selection_no_columns_counterexample:
  "shape1 no_columns = 0
   \<and> forward_selection no_columns [1, 2, 3] 0 mean_model None None = Inl EmptySequence
   \<and> forward_selection no_columns [1, 2, 3] 0 mean_model None None \<noteq> Inl IndexError"
  by (simp add: no_columns_forward) (simp add: no_columns_def shape1_def)

section \<open>Properties of the clustering-ranking selector\<close>

lemma stable_argsort_ok: "argsort_ok stable_argsort"
  by (simp add: argsort_ok_def stable_argsort_def)

lemma amax_Max: "xs \<noteq> [] \<Longrightarrow> amax xs = Inr (Max (set xs))"
proof (cases xs)
  case Nil
  assume "xs \<noteq> []"
  with Nil show ?thesis by simp
next
  case (Cons a list)
  have "fold max list a = Max (set (a # list))" by (rule Max.set_eq_fold[symmetric])
  with Cons show ?thesis by simp
qed

lemma fancy_Inr: "\<forall>i\<in>set idx. i < length xs \<Longrightarrow> fancy xs idx = Inr (map (\<lambda>i. xs ! i) idx)"
  by (simp add: fancy_def list_all_iff)

lemma argsort_first_max:
  assumes "argsort_ok f" "dy \<noteq> []"
  shows "\<exists>p0 ps. f (map uminus dy) = p0 # ps \<and> p0 < length dy \<and> (\<forall>i<length dy. dy ! i \<le> dy ! p0)
           \<and> (\<forall>i\<in>set (f (map uminus dy)). i < length dy)"
proof -
  let ?p = "f (map uminus dy)"
  from assms(1) have len: "length ?p = length dy" and st: "set ?p = {0..<length dy}"
    and so: "sorted (map (\<lambda>i. map uminus dy ! i) ?p)"
    by (simp_all add: argsort_ok_def)
  from len assms(2) obtain p0 ps where p: "?p = p0 # ps" by (cases ?p) auto
  have p0: "p0 < length dy" using st p by auto
  have "dy ! i \<le> dy ! p0" if "i < length dy" for i
  proof -
    from that st have "i \<in> set ?p" by simp
    then have "i = p0 \<or> i \<in> set ps" using p by simp
    moreover have "dy ! k \<le> dy ! p0" if "k \<in> set ps" for k
    proof -
      have "k < length dy" using st that p by auto
      moreover have "map uminus dy ! p0 \<le> map uminus dy ! k"
        using so that unfolding p by simp
      ultimately show ?thesis using p0 by simp
    qed
    ultimately show ?thesis by auto
  qed
  moreover have "\<forall>i\<in>set ?p. i < length dy" using st by simp
  ultimately show ?thesis using p p0 by blast
qed

lemma cluster_pick_Inr:
  assumes "argsort_ok f" "label \<in> set labels" "length labels \<le> length sc"
  shows "\<exists>r. cluster_pick f sc sc_y labels label
               = Inr (r, distance_covariance_sqr (sc ! r) sc_y)
           \<and> r < length labels \<and> labels ! r = label
           \<and> (\<forall>j<length labels. labels ! j = label
                 \<longrightarrow> distance_covariance_sqr (sc ! j) sc_y \<le> distance_covariance_sqr (sc ! r) sc_y)"
proof -
  let ?idx = "filter (\<lambda>i. labels ! i = label) [0..<length labels]"
  let ?dy = "map (\<lambda>x. distance_covariance_sqr x sc_y) (map (\<lambda>i. sc ! i) ?idx)"
  from assms(2) obtain k where k: "k < length labels" "labels ! k = label"
    by (auto simp: in_set_conv_nth)
  then have "k \<in> set ?idx" by simp
  then have ne: "?idx \<noteq> []" by (metis empty_iff empty_set)
  have fm: "fancy sc ?idx = Inr (map (\<lambda>i. sc ! i) ?idx)"
    using assms(3) by (intro fancy_Inr) auto
  have dne: "?dy \<noteq> []" using ne by simp
  from argsort_first_max[OF assms(1) dne] obtain p0 ps where
    p: "f (map uminus ?dy) = p0 # ps" and p0: "p0 < length ?dy"
    and mx: "\<forall>i<length ?dy. ?dy ! i \<le> ?dy ! p0"
    and rng: "\<forall>i\<in>set (f (map uminus ?dy)). i < length ?dy"
    by blast
  have ld: "length ?dy = length ?idx" by simp
  have rng': "\<forall>i\<in>set (p0 # ps). i < length ?idx"
    using rng unfolding p ld .
  have fr: "fancy ?idx (f (map uminus ?dy)) = Inr (map (\<lambda>i. ?idx ! i) (p0 # ps))"
    unfolding p by (rule fancy_Inr[OF rng'])
  let ?r = "?idx ! p0"
  have rin: "?r \<in> set ?idx" using p0 unfolding ld by (rule nth_mem)
  then have r1: "?r < length labels" "labels ! ?r = label" by auto
  have dyp: "?dy ! p0 = distance_covariance_sqr (sc ! ?r) sc_y"
    using p0 unfolding ld by simp
  have "Max (set ?dy) = ?dy ! p0"
  proof (rule Max_eqI)
    show "finite (set ?dy)" by simp
    show "v \<le> ?dy ! p0" if "v \<in> set ?dy" for v
    proof -
      from that obtain i where "i < length ?dy" "?dy ! i = v" by (metis in_set_conv_nth)
      with mx show ?thesis by blast
    qed
    show "?dy ! p0 \<in> set ?dy" using p0 by (rule nth_mem)
  qed
  with amax_Max[OF dne] dyp have am: "amax ?dy = Inr (distance_covariance_sqr (sc ! ?r) sc_y)"
    by simp
  have res: "cluster_pick f sc sc_y labels label = Inr (?r, distance_covariance_sqr (sc ! ?r) sc_y)"
    unfolding cluster_pick_def Let_def fm sum.case fr list.map list.case am by simp
  have "distance_covariance_sqr (sc ! j) sc_y \<le> distance_covariance_sqr (sc ! ?r) sc_y"
    if "j < length labels" "labels ! j = label" for j
  proof -
    from that have "j \<in> set ?idx" by simp
    then obtain i where i: "i < length ?idx" "?idx ! i = j" by (metis in_set_conv_nth)
    then have "?dy ! i = distance_covariance_sqr (sc ! j) sc_y" by simp
    moreover have "?dy ! i \<le> ?dy ! p0" using mx i(1) unfolding ld by blast
    ultimately show ?thesis using dyp by simp
  qed
  with res r1 show ?thesis by blast
qed

lemma sorted_uminus_rev: "sorted (map uminus xs) = sorted (rev (xs::real list))"
  by (simp add: sorted_map sorted_wrt_rev)

lemma argsort_perm:
  assumes "argsort_ok f"
  shows "length (f xs) = length xs" "set (f xs) = {0..<length xs}" "distinct (f xs)"
    "sorted (map (\<lambda>i. xs ! i) (f xs))"
proof -
  from assms show l: "length (f xs) = length xs" and s: "set (f xs) = {0..<length xs}"
    and "sorted (map (\<lambda>i. xs ! i) (f xs))"
    by (simp_all add: argsort_ok_def)
  have "card (set (f xs)) = length (f xs)" using l s by simp
  then show "distinct (f xs)" by (rule card_distinct)
qed

lemma cluster_loop_Inr:
  assumes "argsort_ok f" "set ls \<subseteq> set labels" "length labels \<le> length sc"
  shows "\<exists>rs. cluster_loop f sc sc_y labels ls (sf, cs)
                = Inr (sf @ rs, cs @ map (\<lambda>r. distance_covariance_sqr (sc ! r) sc_y) rs)
           \<and> map (\<lambda>r. labels ! r) rs = ls
           \<and> list_all (\<lambda>r. r < length labels
                 \<and> (\<forall>j<length labels. labels ! j = labels ! r
                       \<longrightarrow> distance_covariance_sqr (sc ! j) sc_y
                            \<le> distance_covariance_sqr (sc ! r) sc_y)) rs"
  using assms(2)
proof (induction ls arbitrary: sf cs)
  case Nil
  show ?case by (intro exI[of _ "[]"]) simp
next
  case (Cons l ls)
  then have l: "l \<in> set labels" and sub: "set ls \<subseteq> set labels" by auto
  from cluster_pick_Inr[OF assms(1) l assms(3), of sc_y] obtain r where
    pk: "cluster_pick f sc sc_y labels l = Inr (r, distance_covariance_sqr (sc ! r) sc_y)"
    and r: "r < length labels" "labels ! r = l"
    and mx: "\<forall>j<length labels. labels ! j = l
                 \<longrightarrow> distance_covariance_sqr (sc ! j) sc_y \<le> distance_covariance_sqr (sc ! r) sc_y"
    by blast
  from Cons.IH[OF sub, of "sf @ [r]" "cs @ [distance_covariance_sqr (sc ! r) sc_y]"]
  obtain rs where
    lp: "cluster_loop f sc sc_y labels ls (sf @ [r], cs @ [distance_covariance_sqr (sc ! r) sc_y])
           = Inr ((sf @ [r]) @ rs,
                  (cs @ [distance_covariance_sqr (sc ! r) sc_y])
                    @ map (\<lambda>r. distance_covariance_sqr (sc ! r) sc_y) rs)"
    and lb: "map (\<lambda>r. labels ! r) rs = ls"
    and al: "list_all (\<lambda>r. r < length labels
                 \<and> (\<forall>j<length labels. labels ! j = labels ! r
                       \<longrightarrow> distance_covariance_sqr (sc ! j) sc_y
                            \<le> distance_covariance_sqr (sc ! r) sc_y)) rs"
    by blast
  show ?case
  proof (intro exI[of _ "r # rs"] conjI)
    show "cluster_loop f sc sc_y labels (l # ls) (sf, cs)
            = Inr (sf @ r # rs, cs @ map (\<lambda>r. distance_covariance_sqr (sc ! r) sc_y) (r # rs))"
      using pk lp by simp
    show "map (\<lambda>r. labels ! r) (r # rs) = l # ls" using r(2) lb by simp
    show "list_all (\<lambda>r. r < length labels
                 \<and> (\<forall>j<length labels. labels ! j = labels ! r
                       \<longrightarrow> distance_covariance_sqr (sc ! j) sc_y
                            \<le> distance_covariance_sqr (sc ! r) sc_y)) (r # rs)"
      using r mx al by simp
  qed
qed

lemma unique_set: "set (unique ls) = set ls" "distinct (unique ls)"
  by (simp_all add: unique_def)

lemma sc_feat_length: "length (sc_feat t) = shape1 t"
  by (simp add: sc_feat_def shape1_def)

lemma slice_to_None: "slice_to None xs = xs"
  by (simp add: slice_to_def)

lemma slice_to_nonneg: "0 \<le> m \<Longrightarrow> slice_to (Some m) xs = take (nat m) xs"
  by (simp add: slice_to_def)

lemma iloc_Inr:
  "\<forall>i\<in>set idx. i < shape1 t \<Longrightarrow> iloc t idx = Inr (t\<lparr>columns := map (\<lambda>i. columns t ! i) idx\<rparr>)"
  by (simp add: iloc_def fancy_Inr shape1_def)

lemma fcr_result:
  assumes ok: "argsort_ok f" and lab: "length (fcr_labels ap t) = shape1 t"
    and ne: "index_len t \<noteq> 0" "columns t \<noteq> []" and ly: "length y = index_len t"
  shows "\<exists>reps. list_all (\<lambda>r. representative t y (fcr_labels ap t) r (dy_of t y r)) reps
           \<and> distinct (map (\<lambda>r. fcr_labels ap t ! r) reps)
           \<and> set (map (\<lambda>r. fcr_labels ap t ! r) reps) = set (fcr_labels ap t)
           \<and> sorted_desc (map (dy_of t y) reps)
           \<and> (\<forall>m. (case m of None \<Rightarrow> True | Some k \<Rightarrow> 0 \<le> k) \<longrightarrow>
                 (\<forall>i\<in>set (slice_to m reps). i < shape1 t)
                 \<and> fcr f ap t y m = Inr (t\<lparr>columns := map (\<lambda>i. columns t ! i) (slice_to m reps)\<rparr>,
                                       slice_to m (map (dy_of t y) reps)))"
proof -
  let ?labels = "fcr_labels ap t"
  let ?sc = "sc_feat t"
  let ?sy = "standard_scale y"
  let ?g = "\<lambda>r. distance_covariance_sqr (?sc ! r) ?sy"
  have g: "?g = dy_of t y" by (simp add: dy_of_def[abs_def])
  have len: "length ?labels \<le> length ?sc" using lab by (simp add: sc_feat_length)
  have sub: "set (unique ?labels) \<subseteq> set ?labels" by (simp add: unique_set)
  from cluster_loop_Inr[OF ok sub len, of ?sy "[]" "[]"] obtain rs where
    lp: "cluster_loop f ?sc ?sy ?labels (unique ?labels) ([], []) = Inr (rs, map ?g rs)"
    and lb: "map (\<lambda>r. ?labels ! r) rs = unique ?labels"
    and al: "list_all (\<lambda>r. r < length ?labels
                 \<and> (\<forall>j<length ?labels. ?labels ! j = ?labels ! r \<longrightarrow> ?g j \<le> ?g r)) rs"
    by auto
  let ?s0 = "map ?g rs"
  let ?q = "f (map uminus ?s0)"
  note q = argsort_perm[OF ok, of "map uminus ?s0"]
  have ql: "length ?q = length rs" using q(1) by simp
  have qs: "set ?q = {0..<length rs}" using q(2) by simp
  have qr: "\<forall>i\<in>set ?q. i < length rs" using qs by simp
  have qr': "\<forall>i\<in>set ?q. i < length ?s0" using qs by simp
  let ?reps = "map (\<lambda>i. rs ! i) ?q"
  have f1: "fancy rs ?q = Inr ?reps" by (rule fancy_Inr[OF qr])
  have f2: "fancy ?s0 ?q = Inr (map (\<lambda>i. ?s0 ! i) ?q)" by (rule fancy_Inr[OF qr'])
  have sc_eq: "map (\<lambda>i. ?s0 ! i) ?q = map ?g ?reps" using qr by simp
  have set_reps: "set ?reps = set rs"
  proof -
    have "set ?reps = (\<lambda>i. rs ! i) ` {0..<length rs}" using qs by simp
    also have "\<dots> = set rs" by (auto simp: set_conv_nth)
    finally show ?thesis .
  qed
  have rep_lab: "map (\<lambda>r. ?labels ! r) ?reps = map (\<lambda>i. unique ?labels ! i) ?q"
  proof -
    have "?labels ! (rs ! i) = unique ?labels ! i" if "i \<in> set ?q" for i
    proof -
      from that qr have i: "i < length rs" by blast
      have "map (\<lambda>r. ?labels ! r) rs ! i = unique ?labels ! i" using lb by simp
      then show ?thesis using i by simp
    qed
    then show ?thesis by simp
  qed
  have lu: "length (unique ?labels) = length rs" using lb by (metis length_map)
  have d: "distinct (map (\<lambda>r. ?labels ! r) ?reps)"
    unfolding rep_lab distinct_map
  proof
    show "distinct ?q" by (rule q(3))
    show "inj_on (\<lambda>i. unique ?labels ! i) (set ?q)"
      unfolding qs using unique_set(2)[of ?labels] lu
      by (auto simp: inj_on_def nth_eq_iff_index_eq)
  qed
  have st: "set (map (\<lambda>r. ?labels ! r) ?reps) = set ?labels"
  proof -
    have "set (map (\<lambda>r. ?labels ! r) ?reps) = (\<lambda>r. ?labels ! r) ` set ?reps"
      by (rule set_map)
    also have "\<dots> = (\<lambda>r. ?labels ! r) ` set rs" by (simp only: set_reps)
    also have "\<dots> = set (map (\<lambda>r. ?labels ! r) rs)" by simp
    also have "\<dots> = set ?labels" unfolding lb by (simp add: unique_set)
    finally show ?thesis .
  qed
  have al': "list_all (\<lambda>r. representative t y ?labels r (dy_of t y r)) ?reps"
    unfolding list_all_iff
  proof
    fix r assume "r \<in> set ?reps"
    then have "r \<in> set rs" by (simp only: set_reps)
    with al have "r < length ?labels
        \<and> (\<forall>j<length ?labels. ?labels ! j = ?labels ! r \<longrightarrow> ?g j \<le> ?g r)"
      unfolding list_all_iff by blast
    then show "representative t y ?labels r (dy_of t y r)"
      by (simp add: representative_def dy_of_def)
  qed
  have e: "map (\<lambda>i. map uminus ?s0 ! i) ?q = map uminus (map ?g ?reps)"
    using qr by simp
  have "sorted (map (\<lambda>i. map uminus ?s0 ! i) ?q)" by (rule q(4))
  then have "sorted (map uminus (map ?g ?reps))" by (simp only: e)
  then have "sorted (rev (map ?g ?reps))" by (simp only: sorted_uminus_rev)
  then have "sorted_desc (map ?g ?reps)" by (simp only: sorted_desc_def)
  then have sd: "sorted_desc (map (dy_of t y) ?reps)" by (simp only: g)
  have rng: "\<forall>i\<in>set ?reps. i < shape1 t"
  proof
    fix r assume "r \<in> set ?reps"
    then have "r \<in> set rs" by (simp only: set_reps)
    with al have "r < length ?labels" unfolding list_all_iff by blast
    then show "r < shape1 t" using lab by simp
  qed
  have res: "(\<forall>i\<in>set (slice_to m ?reps). i < shape1 t)
             \<and> fcr f ap t y m = Inr (t\<lparr>columns := map (\<lambda>i. columns t ! i) (slice_to m ?reps)\<rparr>,
                                   slice_to m (map (dy_of t y) ?reps))"
    if m: "case m of None \<Rightarrow> True | Some k \<Rightarrow> 0 \<le> k" for m
  proof -
    have "set (slice_to m ?reps) \<subseteq> set ?reps"
      by (cases m) (auto simp: slice_to_def dest: in_set_takeD)
    with rng have r2: "\<forall>i\<in>set (slice_to m ?reps). i < shape1 t" by blast
    have yne: "y \<noteq> []" using ne(1) ly by auto
    have c1: "\<not> (index_len t = 0 \<or> columns t = [] \<or> y = [])" using ne yne by simp
    have c2: "\<not> length y \<noteq> index_len t" using ly by simp
    have "fcr f ap t y m = Inr (t\<lparr>columns := map (\<lambda>i. columns t ! i) (slice_to m ?reps)\<rparr>,
                                   slice_to m (map ?g ?reps))"
      by (simp only: fcr_def Let_def c1 c2 if_False lp sum.case prod.case f1 f2
            iloc_Inr[OF r2] sc_eq)
    with r2 show ?thesis unfolding g by simp
  qed
  from al' d st sd res show ?thesis by blast
qed

lemma scale_0_2: "standard_scale [0, 2] = [-1, 1]"
  by (simp add: standard_scale_def variance_def mean_def Let_def)

lemma scale_2_0: "standard_scale [2, 0] = [1, -1]"
  by (simp add: standard_scale_def variance_def mean_def Let_def)

lemma scale_1_1: "standard_scale [1, 1] = [0, 0]"
  by (simp add: standard_scale_def variance_def mean_def Let_def)

lemma with_constant_sc: "sc_feat with_constant = [[-1, 1], [0, 0]]"
  by (simp add: sc_feat_def with_constant_def scale_0_2 scale_1_1)

lemma opposed_sc: "sc_feat opposed = [[-1, 1], [1, -1]]"
  by (simp add: sc_feat_def opposed_def scale_0_2 scale_2_0)

lemma similarity_length: "length (similarity t) = shape1 t"
  by (simp add: similarity_def pairwise_distances_def sc_feat_length)

lemma each_alone_labels: "fcr_labels each_alone t = map int [0..<shape1 t]"
  by (simp add: fcr_labels_def each_alone_def Let_def similarity_length)

lemma with_constant_labels: "fcr_labels each_alone with_constant = [0, 1]"
  by (simp add: each_alone_labels with_constant_def shape1_def upt_rec)

lemma with_constant_loop:
  "cluster_loop stable_argsort [[-1, 1], [0, 0]] [-1, 1] [0, 1] (unique [0, 1]) ([], [])
     = Inr ([0, 1], [1, 0])"
  by code_simp

lemma with_constant_rank: "stable_argsort (map uminus [1, 0]) = [0, 1]"
  by code_simp

lemma with_constant_fcr:
  "fcr stable_argsort each_alone with_constant [0, 2] None = Inr (with_constant, [1, 0])"
proof -
  have c1: "\<not> (index_len with_constant = 0 \<or> columns with_constant = [] \<or> [0, 2 :: real] = [])"
    by (simp add: with_constant_def)
  have c2: "\<not> length [0, 2 :: real] \<noteq> index_len with_constant"
    by (simp add: with_constant_def)
  have f1: "fancy [0, 1 :: nat] [0, 1] = Inr [0, 1]" by (simp add: fancy_def)
  have f2: "fancy [1, 0 :: real] [0, 1] = Inr [1, 0]" by (simp add: fancy_def)
  have il: "iloc with_constant [0, 1] = Inr with_constant"
    by (simp add: iloc_def fancy_def with_constant_def)
  show ?thesis
    by (simp only: fcr_def Let_def c1 c2 if_False with_constant_sc scale_0_2 with_constant_labels
          with_constant_loop sum.case prod.case with_constant_rank f1 f2 il slice_to_None)
qed

lemma dcov_opposed:
  "distance_covariance_sqr [-1, 1] [1, -1] = 1"
  "distance_covariance_sqr [-1, 1] [-1, 1] = 1"
  "distance_covariance_sqr [1, -1] [1, -1] = 1"
  by code_simp+

lemma opposed_dcor: "distance_correlation [-1, 1] [1, -1] = 1"
  by (simp add: distance_correlation_def dcov_opposed)

lemma opposed_similarity: "similarity opposed = [[0, - sqrt 8], [- sqrt 8, 0]]"
  by (simp add: similarity_def pairwise_distances_def opposed_sc euclidean_def sq_errors_def)

lemma sq_errors_commute: "sum_list (sq_errors a b) = sum_list (sq_errors b a)"
proof (induction a arbitrary: b)
  case Nil
  show ?case by (simp add: sq_errors_def)
next
  case (Cons x a)
  show ?case
  proof (cases b)
    case Nil
    then show ?thesis by (simp add: sq_errors_def)
  next
    case (Cons z b')
    have "(x - z)\<^sup>2 = (z - x)\<^sup>2" by (rule power2_commute)
    with Cons.IH[of b'] Cons show ?thesis by (simp add: sq_errors_def)
  qed
qed

lemma euclidean_commute: "euclidean a b = euclidean b a"
  by (simp add: euclidean_def sq_errors_commute)

lemma euclidean_self: "euclidean a a = 0"
proof -
  have "sum_list (sq_errors a a) = 0" by (induction a) (simp_all add: sq_errors_def)
  then show ?thesis by (simp add: euclidean_def)
qed

lemma euclidean_nonneg: "0 \<le> euclidean a b"
proof -
  have "0 \<le> sum_list (sq_errors a b)"
    unfolding sq_errors_def by (rule sum_list_nonneg) auto
  then show ?thesis by (simp add: euclidean_def)
qed

lemma similarity_nth:
  assumes "i < shape1 t" "j < shape1 t"
  shows "similarity t ! i ! j = - euclidean (sc_feat t ! i) (sc_feat t ! j)"
  using assms by (simp add: similarity_def pairwise_distances_def sc_feat_length)

lemma sc_feat_nth: "i < shape1 t \<Longrightarrow> sc_feat t ! i = standard_scale (snd (columns t ! i))"
  by (simp add: sc_feat_def shape1_def)

lemma standard_scale_constant:
  assumes "xs \<noteq> []" "\<forall>x\<in>set xs. x = c"
  shows "standard_scale xs = replicate (length xs) 0"
proof -
  have xs: "xs = replicate (length xs) c" using assms(2) by (simp add: replicate_length_same)
  have n: "0 < length xs" using assms(1) by simp
  have "sum_list xs = real (length xs) * c"
    by (subst xs) (simp add: sum_list_replicate)
  then have m: "mean xs = c" using n by (simp add: mean_def)
  have sq: "map (\<lambda>x. (x - c)\<^sup>2) xs = replicate (length xs) 0"
    by (subst xs) simp
  have v: "variance xs = 0"
    unfolding variance_def m by (simp only: sq) (simp add: mean_def sum_list_replicate)
  have "map (\<lambda>x. (x - c) / 1) xs = replicate (length xs) 0"
    by (subst xs) simp
  then show ?thesis by (simp add: standard_scale_def Let_def m v)
qed

text \<open>
  C3, as the code has it. The matrix that \<open>fcr\<close> gives to the clustering, with its median as
  the preference, has at (i, j) the negated Euclidean distance between the standardized
  columns i and j: a plain pairwise distance. It is symmetric, zero on the diagonal and
  nowhere positive, so a higher value means more similar.
\<close>

theorem similarity_negated_euclidean:
  assumes "i < shape1 t" "j < shape1 t"
  shows "fcr_labels ap t = ap (similarity t) (median (concat (similarity t)))
       \<and> similarity t ! i ! j
           = - euclidean (standard_scale (snd (columns t ! i))) (standard_scale (snd (columns t ! j)))
       \<and> similarity t ! i ! j = similarity t ! j ! i
       \<and> similarity t ! i ! i = 0
       \<and> similarity t ! i ! j \<le> 0"
proof -
  have a: "fcr_labels ap t = ap (similarity t) (median (concat (similarity t)))"
    by (simp add: fcr_labels_def Let_def)
  have b: "similarity t ! i ! j
           = - euclidean (standard_scale (snd (columns t ! i))) (standard_scale (snd (columns t ! j)))"
    using similarity_nth[OF assms] sc_feat_nth[OF assms(1)] sc_feat_nth[OF assms(2)] by simp
  have c: "similarity t ! i ! j = similarity t ! j ! i"
    using similarity_nth[OF assms] similarity_nth[OF assms(2,1)] euclidean_commute by simp
  have d: "similarity t ! i ! i = 0"
    using similarity_nth[OF assms(1,1)] by (simp add: euclidean_self)
  have e: "similarity t ! i ! j \<le> 0"
    using similarity_nth[OF assms] euclidean_nonneg[of "sc_feat t ! i" "sc_feat t ! j"] by simp
  from a b c d e show ?thesis by blast
qed

theorem similarity_negated_euclidean_witness:
  "similarity opposed ! 0 ! 1
     = - euclidean (standard_scale (snd (columns opposed ! 0))) (standard_scale (snd (columns opposed ! 1)))
   \<and> similarity opposed ! 0 ! 1 = similarity opposed ! 1 ! 0
   \<and> similarity opposed ! 0 ! 0 = 0"
proof -
  have "(0::nat) < shape1 opposed" "(1::nat) < shape1 opposed"
    by (simp_all add: opposed_def shape1_def)
  from similarity_negated_euclidean[OF this, of each_alone] show ?thesis by blast
qed

text \<open>
  C3 as stated fails: for the columns (0, 2) and (2, 0) the entry is the negated distance
  between the standardized columns, \<open>- sqrt 8\<close>, while their distance correlation is 1.
\<close>

theorem similarity_distance_correlation_counterexample:
  "similarity opposed ! 0 ! 1 = - sqrt 8
   \<and> - distance_correlation (sc_feat opposed ! 0) (sc_feat opposed ! 1) = - 1
   \<and> similarity opposed ! 0 ! 1 \<noteq> - distance_correlation (sc_feat opposed ! 0) (sc_feat opposed ! 1)"
  by (simp add: opposed_similarity opposed_sc opposed_dcor)

text \<open>
  C4. For any sorting routine that returns the sorting indices and any clustering that
  labels every feature, on a table with rows and columns and a target of the same length,
  \<open>fcr\<close> returns. Each position of the result holds a representative of a cluster: a
  member whose squared distance covariance with the standardized target is the greatest in
  its cluster, that value being the score at the same position. Every cluster has exactly
  one representative, the scores are in descending order, and with a bound m that is not
  negative the result is the first m representatives and the first m scores (all of them
  without a bound).
\<close>

theorem fcr_representatives_ranked:
  assumes "argsort_ok f" "length (fcr_labels ap t) = shape1 t"
    and "index_len t \<noteq> 0" "columns t \<noteq> []" "length y = index_len t"
  shows "\<exists>reps scores.
           fcr f ap t y None = Inr (t\<lparr>columns := map (\<lambda>i. columns t ! i) reps\<rparr>, scores)
         \<and> list_all2 (representative t y (fcr_labels ap t)) reps scores
         \<and> distinct (map (\<lambda>r. fcr_labels ap t ! r) reps)
         \<and> set (map (\<lambda>r. fcr_labels ap t ! r) reps) = set (fcr_labels ap t)
         \<and> sorted_desc scores
         \<and> (\<forall>m\<ge>0. fcr f ap t y (Some m)
                      = Inr (t\<lparr>columns := map (\<lambda>i. columns t ! i) (take (nat m) reps)\<rparr>,
                             take (nat m) scores))"
proof -
  from fcr_result[OF assms] obtain reps where
    al: "list_all (\<lambda>r. representative t y (fcr_labels ap t) r (dy_of t y r)) reps"
    and d: "distinct (map (\<lambda>r. fcr_labels ap t ! r) reps)"
    and s: "set (map (\<lambda>r. fcr_labels ap t ! r) reps) = set (fcr_labels ap t)"
    and sd: "sorted_desc (map (dy_of t y) reps)"
    and res: "\<forall>m. (case m of None \<Rightarrow> True | Some k \<Rightarrow> 0 \<le> k) \<longrightarrow>
                 (\<forall>i\<in>set (slice_to m reps). i < shape1 t)
                 \<and> fcr f ap t y m = Inr (t\<lparr>columns := map (\<lambda>i. columns t ! i) (slice_to m reps)\<rparr>,
                                       slice_to m (map (dy_of t y) reps))"
    by blast
  have r0: "fcr f ap t y None = Inr (t\<lparr>columns := map (\<lambda>i. columns t ! i) reps\<rparr>, map (dy_of t y) reps)"
    using res[rule_format, of None] by (simp add: slice_to_None)
  have l2: "list_all2 (representative t y (fcr_labels ap t)) reps (map (dy_of t y) reps)"
    using al by (simp add: list_all2_map2 list_all2_same list_all_iff)
  have rm: "fcr f ap t y (Some m)
              = Inr (t\<lparr>columns := map (\<lambda>i. columns t ! i) (take (nat m) reps)\<rparr>,
                     take (nat m) (map (dy_of t y) reps))" if "0 \<le> m" for m
    using res[rule_format, of "Some m"] that by (simp add: slice_to_nonneg)
  from r0 l2 d s sd rm show ?thesis by blast
qed

theorem fcr_representatives_ranked_witness:
  "\<exists>reps scores.
     fcr stable_argsort each_alone with_constant [0, 2] None
       = Inr (with_constant\<lparr>columns := map (\<lambda>i. columns with_constant ! i) reps\<rparr>, scores)
   \<and> list_all2 (representative with_constant [0, 2] (fcr_labels each_alone with_constant)) reps scores
   \<and> sorted_desc scores
   \<and> fcr stable_argsort each_alone with_constant [0, 2] (Some 1)
       = Inr (with_constant\<lparr>columns := map (\<lambda>i. columns with_constant ! i) (take (nat 1) reps)\<rparr>,
              take (nat 1) scores)"
proof -
  have l: "length (fcr_labels each_alone with_constant) = shape1 with_constant"
    by (simp add: each_alone_labels)
  have n: "index_len with_constant \<noteq> 0" "columns with_constant \<noteq> []"
    "length [0, 2 :: real] = index_len with_constant"
    by (simp_all add: with_constant_def)
  from fcr_representatives_ranked[OF stable_argsort_ok l n] obtain reps scores where
    a: "fcr stable_argsort each_alone with_constant [0, 2] None
       = Inr (with_constant\<lparr>columns := map (\<lambda>i. columns with_constant ! i) reps\<rparr>, scores)"
    and b: "list_all2 (representative with_constant [0, 2] (fcr_labels each_alone with_constant)) reps scores"
    and c: "sorted_desc scores"
    and e: "\<forall>m\<ge>0. fcr stable_argsort each_alone with_constant [0, 2] (Some m)
                      = Inr (with_constant\<lparr>columns := map (\<lambda>i. columns with_constant ! i) (take (nat m) reps)\<rparr>,
                             take (nat m) scores)"
    by blast
  from e have "fcr stable_argsort each_alone with_constant [0, 2] (Some 1)
       = Inr (with_constant\<lparr>columns := map (\<lambda>i. columns with_constant ! i) (take (nat 1) reps)\<rparr>,
              take (nat 1) scores)" by simp
  with a b c show ?thesis by blast
qed

text \<open>
  C7, as the code has it. Standardization never fails on a constant column: the scaler
  replaces the zero scale by one and the column becomes all zeros. \<open>fcr\<close> returns a result
  on every table with rows and columns and a target of the same length, whatever the
  variance of its columns.
\<close>

theorem constant_column_standardized:
  "(xs \<noteq> [] \<and> (\<forall>x\<in>set xs. x = c) \<longrightarrow> standard_scale xs = replicate (length xs) 0)
   \<and> (argsort_ok f \<and> length (fcr_labels ap t) = shape1 t
        \<and> index_len t \<noteq> 0 \<and> columns t \<noteq> [] \<and> length y = index_len t
        \<longrightarrow> (\<exists>r. fcr f ap t y None = Inr r))"
proof (rule conjI; rule impI)
  assume "xs \<noteq> [] \<and> (\<forall>x\<in>set xs. x = c)"
  then show "standard_scale xs = replicate (length xs) 0"
    using standard_scale_constant by blast
next
  assume a: "argsort_ok f \<and> length (fcr_labels ap t) = shape1 t
        \<and> index_len t \<noteq> 0 \<and> columns t \<noteq> [] \<and> length y = index_len t"
  then have h: "argsort_ok f" "length (fcr_labels ap t) = shape1 t"
    "index_len t \<noteq> 0" "columns t \<noteq> []" "length y = index_len t" by simp_all
  from fcr_result[OF h] obtain reps where
    "\<forall>m. (case m of None \<Rightarrow> True | Some k \<Rightarrow> 0 \<le> k) \<longrightarrow>
                 (\<forall>i\<in>set (slice_to m reps). i < shape1 t)
                 \<and> fcr f ap t y m = Inr (t\<lparr>columns := map (\<lambda>i. columns t ! i) (slice_to m reps)\<rparr>,
                                       slice_to m (map (dy_of t y) reps))"
    by blast
  from this[rule_format, of None] show "\<exists>r. fcr f ap t y None = Inr r" by simp
qed

theorem constant_column_standardized_witness:
  "standard_scale [1, 1] = replicate (length [1, 1 :: real]) 0
   \<and> (\<exists>r. fcr stable_argsort each_alone with_constant [0, 2] None = Inr r)"
proof -
  have x: "[1, 1 :: real] \<noteq> [] \<and> (\<forall>x\<in>set [1, 1 :: real]. x = 1)" by simp
  have y: "argsort_ok stable_argsort
        \<and> length (fcr_labels each_alone with_constant) = shape1 with_constant
        \<and> index_len with_constant \<noteq> 0 \<and> columns with_constant \<noteq> []
        \<and> length [0, 2 :: real] = index_len with_constant"
    by (simp add: stable_argsort_ok each_alone_labels with_constant_def)
  from constant_column_standardized[of "[1, 1]" 1 stable_argsort each_alone with_constant "[0, 2]"] x y
  show ?thesis by blast
qed

text \<open>
  C7 as stated fails: on a table whose second column is constant, \<open>fcr\<close> raises nothing and
  returns both columns, the constant one with the score 0.
\<close>

theorem constant_column_counterexample:
  "snd (columns with_constant ! 1) = [1, 1]
   \<and> sc_feat with_constant ! 1 = [0, 0]
   \<and> fcr stable_argsort each_alone with_constant [0, 2] None = Inr (with_constant, [1, 0])"
  by (simp add: with_constant_sc with_constant_fcr) (simp add: with_constant_def)

end
